theory Spec2Isabelle
  imports Main "HOL-Library.Word" "HOL-Library.Monad_Syntax"
begin

unbundle bit_operations_syntax

text \<open>
  A model of \<open>src/mapgen.cpp\<close>: the ground scans and the heightmap update, the scan for
  liquid transitions, the lighting passes of the voxel buffer, and the registry of
  generation elements, each followed by what is proved about it.
\<close>

section \<open>Machine integers and vectors\<close>

text \<open>
  \<open>u8\<close>, \<open>u32\<close> and the 16-bit content ids are words. A coordinate (\<open>s16\<close>) is an \<open>int\<close>, and
  every place where the code stores a computed value back into an \<open>s16\<close> applies the
  wrap-around \<open>s16\<close> below (the value a 16-bit two's complement variable keeps).
\<close>

type_synonym u8 = "8 word"
type_synonym u32 = "32 word"
type_synonym content_t = "16 word"

definition s16 :: "int \<Rightarrow> int" where
  "s16 v = (v + 32768) mod 65536 - 32768"

record v3s16 =
  X :: int
  Y :: int
  Z :: int

text \<open>\<open>v2s16(x, z)\<close>: a column; its second component \<open>Y2\<close> carries the Z coordinate.\<close>

record v2s16 =
  X2 :: int
  Y2 :: int

text \<open>
  Modelled from the spec: the vector type \<open>v3s16\<close> is declared outside the sources.
  \<open>lightSpread\<close> reaches the "six axis-aligned neighbors" of a position with the
  \<open>operator+\<close> and \<open>operator-\<close> of that type, which work component by component on
  16-bit components.
\<close>

definition v3s16_add :: "v3s16 \<Rightarrow> v3s16 \<Rightarrow> v3s16" where
  "v3s16_add p q = \<lparr>X = s16 (X p + X q), Y = s16 (Y p + Y q), Z = s16 (Z p + Z q)\<rparr>"

definition v3s16_sub :: "v3s16 \<Rightarrow> v3s16 \<Rightarrow> v3s16" where
  "v3s16_sub p q = \<lparr>X = s16 (X p - X q), Y = s16 (Y p - Y q), Z = s16 (Z p - Z q)\<rparr>"

section \<open>Counting loops\<close>

text \<open>
  \<open>for (s16 v = lo; v <= hi; v++) body\<close>. The counter is 16 bits wide: past 32767 it
  wraps to -32768, so with \<open>hi = 32767\<close> the loop never ends; not returning is \<open>None\<close>.
\<close>

partial_function (option) for_s16_up :: "int \<Rightarrow> int \<Rightarrow> (int \<Rightarrow> 's \<Rightarrow> 's option) \<Rightarrow> 's \<Rightarrow> 's option" where
  "for_s16_up v hi body s =
     (if v \<le> hi then Option.bind (body v s) (for_s16_up (s16 (v + 1)) hi body) else Some s)"

text \<open>\<open>for (s16 v = hi; v >= lo; v--) body\<close>, wrapping below -32768.\<close>

partial_function (option) for_s16_down :: "int \<Rightarrow> int \<Rightarrow> (int \<Rightarrow> 's \<Rightarrow> 's option) \<Rightarrow> 's \<Rightarrow> 's option" where
  "for_s16_down v lo body s =
     (if v \<ge> lo then Option.bind (body v s) (for_s16_down (s16 (v - 1)) lo body) else Some s)"

text \<open>
  \<open>for (int v = lo; v <= hi; v++) body\<close> with \<open>int\<close> counters running between 16-bit
  bounds: no wrap-around, the loop ends. The first form is for bodies that always
  return, the second for bodies that call a function which may not.
\<close>

function for_int :: "int \<Rightarrow> int \<Rightarrow> (int \<Rightarrow> 's \<Rightarrow> 's) \<Rightarrow> 's \<Rightarrow> 's" where
  "for_int v hi body s = (if v \<le> hi then for_int (v + 1) hi body (body v s) else s)"
  by pat_completeness auto
termination
  by (relation "measure (\<lambda>(v, hi, body, s). nat (hi + 1 - v))") auto

function for_int_opt :: "int \<Rightarrow> int \<Rightarrow> (int \<Rightarrow> 's \<Rightarrow> 's option) \<Rightarrow> 's \<Rightarrow> 's option" where
  "for_int_opt v hi body s =
     (if v \<le> hi then (case body v s of None \<Rightarrow> None | Some s' \<Rightarrow> for_int_opt (v + 1) hi body s')
      else Some s)"
  by pat_completeness auto
termination
  by (relation "measure (\<lambda>(v, hi, body, s). nat (hi + 1 - v))") auto

section \<open>Voxel buffer and node properties\<close>

text \<open>
  Modelled from the spec: a node (declared in mapnode.h, outside the sources) is a
  "content/type id (opaque, looked up in the Node Property Table) plus a packed
  lighting field", with further payload; \<open>param0\<close> is the content id, \<open>param1\<close> the
  lighting field.
\<close>

record MapNode =
  param0 :: content_t
  param1 :: u8
  param2 :: u8

definition getContent :: "MapNode \<Rightarrow> content_t" where
  "getContent n = param0 n"

text \<open>
  Modelled from the spec: the node property table (declared in nodedef.h, outside the
  sources) is a "read-only node-property lookup keyed by content/type id, exposing:
  walkable, light-propagates, sunlight-propagates, light-emission-level, is-liquid".
  \<open>ndef_get nd n\<close> is what \<open>ndef->get(n)\<close> returns; \<open>isLiquid\<close> is the result of the
  accessor of that name.
\<close>

record ContentFeatures =
  walkable :: bool
  light_propagates :: bool
  sunlight_propagates :: bool
  light_source :: u8
  isLiquid :: bool

type_synonym NodeDefManager = "content_t \<Rightarrow> ContentFeatures"

definition ndef_get :: "NodeDefManager \<Rightarrow> MapNode \<Rightarrow> ContentFeatures" where
  "ndef_get nd n = nd (getContent n)"

record VoxelArea =
  MinEdge :: v3s16
  MaxEdge :: v3s16

text \<open>
  Modelled from the spec: the box type \<open>VoxelArea\<close> (declared in voxel.h, which is not
  among the sources) is "an axis-aligned 3D box over a voxel buffer, supporting
  linear-index lookup and single-axis stepping". \<open>getExtent\<close> is the number of cells
  along each axis, \<open>index\<close> the position of a cell in the dense array (X fastest, then
  Y, then Z), \<open>add_y\<close> moves an index by \<open>a\<close> cells along Y, and \<open>contains\<close> is
  membership in the box. Indices are computed in unbounded integers.
\<close>

definition getExtent :: "VoxelArea \<Rightarrow> v3s16" where
  "getExtent a = \<lparr>X = X (MaxEdge a) - X (MinEdge a) + 1,
                  Y = Y (MaxEdge a) - Y (MinEdge a) + 1,
                  Z = Z (MaxEdge a) - Z (MinEdge a) + 1\<rparr>"

definition index :: "VoxelArea \<Rightarrow> int \<Rightarrow> int \<Rightarrow> int \<Rightarrow> int" where
  "index a x y z =
     (z - Z (MinEdge a)) * Y (getExtent a) * X (getExtent a)
       + (y - Y (MinEdge a)) * X (getExtent a) + (x - X (MinEdge a))"

definition index_p :: "VoxelArea \<Rightarrow> v3s16 \<Rightarrow> int" where
  "index_p a p = index a (X p) (Y p) (Z p)"

definition add_y :: "v3s16 \<Rightarrow> int \<Rightarrow> int \<Rightarrow> int" where
  "add_y extent i a = i + a * X extent"

definition contains :: "VoxelArea \<Rightarrow> v3s16 \<Rightarrow> bool" where
  "contains a p \<longleftrightarrow>
     X p \<ge> X (MinEdge a) \<and> X p \<le> X (MaxEdge a) \<and>
     Y p \<ge> Y (MinEdge a) \<and> Y p \<le> Y (MaxEdge a) \<and>
     Z p \<ge> Z (MinEdge a) \<and> Z p \<le> Z (MaxEdge a)"

text \<open>
  The voxel manipulator: its area and the dense array \<open>m_data\<close>, a store from array
  index to node. An access outside the allocated array is undefined in the program
  and belongs to the caller's contract; the store answers every index.
\<close>

record VoxelManipulator =
  m_area :: VoxelArea
  m_data :: "int \<Rightarrow> MapNode"

text \<open>
  The generator object. \<open>heightmap\<close> is the optional array (\<open>NULL\<close> is \<open>None\<close>), a store
  from array index to a 16-bit height.
\<close>

record Mapgen =
  water_level :: int
  vm :: VoxelManipulator
  ndef :: NodeDefManager
  heightmap :: "(int \<Rightarrow> int) option"

text \<open>Modelled from the spec: full sunlight is the top of the light range [0,15].\<close>

definition LIGHT_SUN :: u8 where
  "LIGHT_SUN = 15"

section \<open>Ground scans and the heightmap\<close>

text \<open>
  The loop shared by both ground scans:
  \<open>for (y = ymax; y >= ymin; y--) { if (walkable(m_data[i])) break; add_y(em, i, -1); }\<close>
  and the value of \<open>y\<close> after it.
\<close>

partial_function (option) ground_scan ::
    "VoxelManipulator \<Rightarrow> NodeDefManager \<Rightarrow> int \<Rightarrow> int \<Rightarrow> int \<Rightarrow> int option" where
  "ground_scan v nd ymin y i =
     (if y \<ge> ymin then
        (if walkable (ndef_get nd (m_data v i)) then Some y
         else ground_scan v nd ymin (s16 (y - 1)) (add_y (getExtent (m_area v)) i (- 1)))
      else Some y)"

definition findGroundLevelFull :: "Mapgen \<Rightarrow> v2s16 \<Rightarrow> int option" where
  "findGroundLevelFull mg p2d =
     (let y_nodes_max = Y (MaxEdge (m_area (vm mg)));
          y_nodes_min = Y (MinEdge (m_area (vm mg)));
          i = index (m_area (vm mg)) (X2 p2d) y_nodes_max (Y2 p2d)
      in Option.bind (ground_scan (vm mg) (ndef mg) y_nodes_min y_nodes_max i)
           (\<lambda>y. Some (if y \<ge> y_nodes_min then y else s16 (y_nodes_min - 1))))"

definition findGroundLevel :: "Mapgen \<Rightarrow> v2s16 \<Rightarrow> int \<Rightarrow> int \<Rightarrow> int option" where
  "findGroundLevel mg p2d ymin ymax =
     ground_scan (vm mg) (ndef mg) ymin ymax (index (m_area (vm mg)) (X2 p2d) ymax (Y2 p2d))"

text \<open>
  The body of the column loop of \<open>updateHeightmap\<close> once the scan has returned \<open>y\<close>:
  the two \<open>continue\<close> tests, then the store. \<open>nmin.Y - 1\<close> is computed in \<open>int\<close>.
\<close>

definition heightmap_store :: "int \<Rightarrow> int \<Rightarrow> int \<Rightarrow> int \<Rightarrow> (int \<Rightarrow> int) \<Rightarrow> (int \<Rightarrow> int)" where
  "heightmap_store ymin ymax y idx hm =
     (if y = ymax \<and> hm idx > ymax then hm
      else if y = ymin - 1 \<and> hm idx < ymin then hm
      else hm(idx := y))"

definition updateHeightmap :: "Mapgen \<Rightarrow> v3s16 \<Rightarrow> v3s16 \<Rightarrow> Mapgen option" where
  "updateHeightmap mg nmin nmax =
     (case heightmap mg of
        None \<Rightarrow> Some mg
      | Some hm0 \<Rightarrow>
          Option.bind
            (for_s16_up (Z nmin) (Z nmax)
               (\<lambda>z. for_s16_up (X nmin) (X nmax)
                  (\<lambda>x (idx, hm).
                     Option.bind (findGroundLevel mg \<lparr>X2 = x, Y2 = z\<rparr> (Y nmin) (Y nmax))
                       (\<lambda>y. Some (idx + 1, heightmap_store (Y nmin) (Y nmax) y idx hm))))
               (0, hm0))
            (\<lambda>(idx, hm). Some (mg\<lparr>heightmap := Some hm\<rparr>)))"

section \<open>Liquid transitions\<close>

text \<open>
  Modelled from the spec: the pending set \<open>UniqueQueue\<close> (declared outside the
  sources) is "unique by value, insertion order preserved, later duplicate insertions
  are no-ops".
\<close>

definition push_back :: "v3s16 list \<Rightarrow> v3s16 \<Rightarrow> v3s16 list" where
  "push_back q p = (if p \<in> set q then q else q @ [p])"

text \<open>The state of the Y loop of a column: the queue, \<open>wasliquid\<close> and the index \<open>i\<close>.\<close>

definition updateLiquid_node ::
    "Mapgen \<Rightarrow> int \<Rightarrow> int \<Rightarrow> int \<Rightarrow> v3s16 list \<times> bool \<times> int \<Rightarrow> (v3s16 list \<times> bool \<times> int) option" where
  "updateLiquid_node mg x z y s =
     (case s of (q, wasliquid, i) \<Rightarrow>
        (let isliquid = isLiquid (ndef_get (ndef mg) (m_data (vm mg) i))
         in Some (if isliquid \<noteq> wasliquid then push_back q \<lparr>X = x, Y = y, Z = z\<rparr> else q,
                  isliquid,
                  add_y (getExtent (m_area (vm mg))) i (- 1))))"

definition updateLiquid_column :: "Mapgen \<Rightarrow> v3s16 \<Rightarrow> v3s16 \<Rightarrow> int \<Rightarrow> int \<Rightarrow> v3s16 list \<Rightarrow> v3s16 list option" where
  "updateLiquid_column mg nmin nmax z x q =
     Option.bind
       (for_s16_down (Y nmax) (Y nmin) (updateLiquid_node mg x z)
          (q, True, index (m_area (vm mg)) x (Y nmax) z))
       (\<lambda>(q', wasliquid, i). Some q')"

definition updateLiquid :: "Mapgen \<Rightarrow> v3s16 list \<Rightarrow> v3s16 \<Rightarrow> v3s16 \<Rightarrow> v3s16 list option" where
  "updateLiquid mg trans_liquid nmin nmax =
     for_s16_up (Z nmin) (Z nmax)
       (\<lambda>z. for_s16_up (X nmin) (X nmax) (updateLiquid_column mg nmin nmax z))
       trans_liquid"

section \<open>Lighting\<close>

definition set_param1 :: "(int \<Rightarrow> MapNode) \<Rightarrow> int \<Rightarrow> u8 \<Rightarrow> (int \<Rightarrow> MapNode)" where
  "set_param1 d i l = d(i := (d i)\<lparr>param1 := l\<rparr>)"

definition setLighting :: "Mapgen \<Rightarrow> v3s16 \<Rightarrow> v3s16 \<Rightarrow> u8 \<Rightarrow> Mapgen" where
  "setLighting mg nmin nmax light =
     (let a = \<lparr>MinEdge = nmin, MaxEdge = nmax\<rparr>;
          d' = for_int (Z (MinEdge a)) (Z (MaxEdge a))
                 (\<lambda>z. for_int (Y (MinEdge a)) (Y (MaxEdge a))
                    (\<lambda>y d. snd (for_int (X (MinEdge a)) (X (MaxEdge a))
                                  (\<lambda>x (i, d). (i + 1, set_param1 d i light))
                                  (index (m_area (vm mg)) (X (MinEdge a)) y z, d))))
                 (m_data (vm mg))
      in mg\<lparr>vm := (vm mg)\<lparr>m_data := d'\<rparr>\<rparr>)"

text \<open>
  \<open>lightSpread\<close> works on the buffer \<open>d\<close> of the manipulator with area \<open>va\<close>; the six
  recursive calls run one after the other, each on the buffer the previous one left.
\<close>

partial_function (option) lightSpread ::
    "VoxelArea \<Rightarrow> NodeDefManager \<Rightarrow> VoxelArea \<Rightarrow> v3s16 \<Rightarrow> u8 \<Rightarrow> (int \<Rightarrow> MapNode) \<Rightarrow> (int \<Rightarrow> MapNode) option" where
  "lightSpread va nd a p light d =
     (if light \<le> 1 \<or> \<not> contains a p then Some d
      else
        (let vi = index_p va p;
             light' = light - 1
         in if light' \<le> param1 (d vi) \<or> \<not> light_propagates (ndef_get nd (d vi)) then Some d
            else
              Option.bind (lightSpread va nd a (v3s16_add p \<lparr>X = 0, Y = 0, Z = 1\<rparr>) light' (set_param1 d vi light')) (\<lambda>d1.
              Option.bind (lightSpread va nd a (v3s16_add p \<lparr>X = 0, Y = 1, Z = 0\<rparr>) light' d1) (\<lambda>d2.
              Option.bind (lightSpread va nd a (v3s16_add p \<lparr>X = 1, Y = 0, Z = 0\<rparr>) light' d2) (\<lambda>d3.
              Option.bind (lightSpread va nd a (v3s16_sub p \<lparr>X = 0, Y = 0, Z = 1\<rparr>) light' d3) (\<lambda>d4.
              Option.bind (lightSpread va nd a (v3s16_sub p \<lparr>X = 0, Y = 1, Z = 0\<rparr>) light' d4) (\<lambda>d5.
              lightSpread va nd a (v3s16_sub p \<lparr>X = 1, Y = 0, Z = 0\<rparr>) light' d5)))))))"

text \<open>
  The inner loop of the sun pass:
  \<open>for (y = MaxEdge.Y; y >= MinEdge.Y; y--) { if (!sunlight_propagates) break; param1 = LIGHT_SUN; add_y(em, i, -1); }\<close>
\<close>

function sun_shaft :: "NodeDefManager \<Rightarrow> v3s16 \<Rightarrow> int \<Rightarrow> int \<Rightarrow> int \<Rightarrow> (int \<Rightarrow> MapNode) \<Rightarrow> (int \<Rightarrow> MapNode)" where
  "sun_shaft nd em ymin y i d =
     (if y \<ge> ymin then
        (if \<not> sunlight_propagates (ndef_get nd (d i)) then d
         else sun_shaft nd em ymin (y - 1) (add_y em i (- 1)) (set_param1 d i LIGHT_SUN))
      else d)"
  by pat_completeness auto
termination
  by (relation "measure (\<lambda>(nd, em, ymin, y, i, d). nat (y + 1 - ymin))") auto

text \<open>
  The body of the column loop of the sun pass. \<open>ignore\<close> is the content id
  \<open>CONTENT_IGNORE\<close>, a constant declared outside the sources.
\<close>

definition sun_column :: "content_t \<Rightarrow> Mapgen \<Rightarrow> VoxelArea \<Rightarrow> int \<Rightarrow> int \<Rightarrow> (int \<Rightarrow> MapNode) \<Rightarrow> (int \<Rightarrow> MapNode)" where
  "sun_column ignore mg a z x d =
     (let block_is_underground = (water_level mg \<ge> Y (MaxEdge a));
          em = getExtent (m_area (vm mg));
          i = index (m_area (vm mg)) x (Y (MaxEdge a) + 1) z;
          shaft = sun_shaft (ndef mg) em (Y (MinEdge a)) (Y (MaxEdge a)) (add_y em i (- 1)) d
      in if getContent (d i) = ignore then (if block_is_underground then d else shaft)
         else if param1 (d i) AND 0x0F \<noteq> LIGHT_SUN then d
         else shaft)"

definition sun_pass :: "content_t \<Rightarrow> Mapgen \<Rightarrow> VoxelArea \<Rightarrow> (int \<Rightarrow> MapNode) \<Rightarrow> (int \<Rightarrow> MapNode)" where
  "sun_pass ignore mg a d =
     for_int (Z (MinEdge a)) (Z (MaxEdge a))
       (\<lambda>z. for_int (X (MinEdge a)) (X (MaxEdge a)) (sun_column ignore mg a z)) d"

text \<open>
  The body of the innermost loop of the spread pass, at the node with index \<open>i\<close> and
  coordinates \<open>(x, y, z)\<close>; the \<open>v3s16\<close> constructor narrows its arguments to 16 bits.
\<close>

definition spread_node ::
    "content_t \<Rightarrow> Mapgen \<Rightarrow> VoxelArea \<Rightarrow> int \<Rightarrow> int \<Rightarrow> int \<Rightarrow> int \<Rightarrow> (int \<Rightarrow> MapNode) \<Rightarrow> (int \<Rightarrow> MapNode) option" where
  "spread_node ignore mg a z y x i d =
     (if getContent (d i) = ignore \<or> \<not> light_propagates (ndef_get (ndef mg) (d i)) then Some d
      else
        (let light_produced = light_source (ndef_get (ndef mg) (d i)) AND 0x0F;
             d0 = (if light_produced \<noteq> 0 then set_param1 d i light_produced else d);
             light = param1 (d0 i) AND 0x0F;
             va = m_area (vm mg);
             nd = ndef mg
         in if light \<noteq> 0 then
              Option.bind (lightSpread va nd a \<lparr>X = s16 x, Y = s16 y, Z = s16 (z + 1)\<rparr> (light - 1) d0) (\<lambda>d1.
              Option.bind (lightSpread va nd a \<lparr>X = s16 x, Y = s16 (y + 1), Z = s16 z\<rparr> (light - 1) d1) (\<lambda>d2.
              Option.bind (lightSpread va nd a \<lparr>X = s16 (x + 1), Y = s16 y, Z = s16 z\<rparr> (light - 1) d2) (\<lambda>d3.
              Option.bind (lightSpread va nd a \<lparr>X = s16 x, Y = s16 y, Z = s16 (z - 1)\<rparr> (light - 1) d3) (\<lambda>d4.
              Option.bind (lightSpread va nd a \<lparr>X = s16 x, Y = s16 (y - 1), Z = s16 z\<rparr> (light - 1) d4) (\<lambda>d5.
              lightSpread va nd a \<lparr>X = s16 (x - 1), Y = s16 y, Z = s16 z\<rparr> (light - 1) d5)))))
            else Some d0))"

definition spread_pass :: "content_t \<Rightarrow> Mapgen \<Rightarrow> VoxelArea \<Rightarrow> (int \<Rightarrow> MapNode) \<Rightarrow> (int \<Rightarrow> MapNode) option" where
  "spread_pass ignore mg a d =
     for_int_opt (Z (MinEdge a)) (Z (MaxEdge a))
       (\<lambda>z. for_int_opt (Y (MinEdge a)) (Y (MaxEdge a))
          (\<lambda>y d. map_option snd
             (for_int_opt (X (MinEdge a)) (X (MaxEdge a))
                (\<lambda>x (i, d). map_option (\<lambda>d'. (i + 1, d')) (spread_node ignore mg a z y x i d))
                (index (m_area (vm mg)) (X (MinEdge a)) y z, d))))
       d"

definition calcLighting :: "content_t \<Rightarrow> Mapgen \<Rightarrow> v3s16 \<Rightarrow> v3s16 \<Rightarrow> Mapgen option" where
  "calcLighting ignore mg nmin nmax =
     (let a = \<lparr>MinEdge = nmin, MaxEdge = nmax\<rparr>
      in map_option (\<lambda>d. mg\<lparr>vm := (vm mg)\<lparr>m_data := d\<rparr>\<rparr>)
           (spread_pass ignore mg a (sun_pass ignore mg a (m_data (vm mg)))))"

section \<open>The element registry\<close>

text \<open>
  An element carries the id the registry gives it and its name. A slot of
  \<open>m_elements\<close> holds an element or is empty (\<open>NULL\<close>).
\<close>

record GenElement =
  id_elem :: u32
  name :: string

type_synonym slots = "GenElement option list"

text \<open>The first loop of \<open>add\<close>: the index of the first empty slot, counting from \<open>i\<close>.\<close>

fun first_null :: "slots \<Rightarrow> nat \<Rightarrow> nat option" where
  "first_null [] i = None"
| "first_null (e # es) i = (if e = None then Some i else first_null es (i + 1))"

text \<open>
  \<open>add\<close> returns the id and the slot table. \<open>limit\<close> is \<open>ELEMENT_LIMIT\<close>, a constant
  of the class declared outside the sources. The result type is 32 bits wide: a slot
  index is narrowed by \<open>of_nat\<close>, and \<open>-1\<close> is the word of all ones.
\<close>

definition add :: "nat \<Rightarrow> slots \<Rightarrow> GenElement \<Rightarrow> u32 \<times> slots" where
  "add limit m_elements elem =
     (let nelem = length m_elements
      in case first_null m_elements 0 of
           Some i \<Rightarrow> (of_nat i, m_elements[i := Some (elem\<lparr>id_elem := of_nat i\<rparr>)])
         | None \<Rightarrow>
             if nelem \<ge> limit then (- 1, m_elements)
             else (of_nat nelem, m_elements @ [Some (elem\<lparr>id_elem := of_nat nelem\<rparr>)]))"

definition get :: "slots \<Rightarrow> u32 \<Rightarrow> GenElement option" where
  "get m_elements i = (if unat i < length m_elements then m_elements ! unat i else None)"

text \<open>
  \<open>strcmp\<close> on \<open>c_str()\<close> (both of the C and C++ libraries): the strings are compared
  up to their first NUL byte.
\<close>

definition c_str :: "string \<Rightarrow> string" where
  "c_str s = takeWhile (\<lambda>c. c \<noteq> CHR 0x00) s"

fun getByName :: "slots \<Rightarrow> string \<Rightarrow> GenElement option" where
  "getByName [] nm = None"
| "getByName (e # es) nm =
     (case e of
        Some elem \<Rightarrow> if c_str (name elem) = c_str nm then Some elem else getByName es nm
      | None \<Rightarrow> getByName es nm)"

definition update :: "slots \<Rightarrow> u32 \<Rightarrow> GenElement option \<Rightarrow> GenElement option \<times> slots" where
  "update m_elements i elem =
     (if unat i \<ge> length m_elements then (None, m_elements)
      else (m_elements ! unat i, m_elements[unat i := elem]))"

definition remove :: "slots \<Rightarrow> u32 \<Rightarrow> GenElement option \<times> slots" where
  "remove m_elements i = update m_elements i None"

section \<open>Notions used in the statements\<close>

text \<open>
  \<open>paint W l d\<close> is the buffer \<open>d\<close> with the light field of every index in \<open>W\<close> set to
  \<open>l\<close>; \<open>swept a z y x\<close> is the set of positions of the box \<open>a\<close> that a sweep in the
  order Z, then Y, then X has passed when it stands at \<open>(x, y, z)\<close>.
\<close>

definition paint :: "int set \<Rightarrow> u8 \<Rightarrow> (int \<Rightarrow> MapNode) \<Rightarrow> (int \<Rightarrow> MapNode)" where
  "paint W l d = (\<lambda>j. if j \<in> W then (d j)\<lparr>param1 := l\<rparr> else d j)"

definition swept :: "VoxelArea \<Rightarrow> int \<Rightarrow> int \<Rightarrow> int \<Rightarrow> v3s16 set" where
  "swept a z y x = {p. contains a p \<and> (Z p < z \<or> (Z p = z \<and> (Y p < y \<or> (Y p = y \<and> X p < x))))}"

text \<open>
  \<open>walkable_at\<close> and \<open>liquid_at\<close> read the property table for the node at a
  coordinate of the buffer.
\<close>

definition walkable_at :: "Mapgen \<Rightarrow> int \<Rightarrow> int \<Rightarrow> int \<Rightarrow> bool" where
  "walkable_at mg x y z = walkable (ndef_get (ndef mg) (m_data (vm mg) (index (m_area (vm mg)) x y z)))"

definition liquid_at :: "Mapgen \<Rightarrow> int \<Rightarrow> int \<Rightarrow> int \<Rightarrow> bool" where
  "liquid_at mg x y z = isLiquid (ndef_get (ndef mg) (m_data (vm mg) (index (m_area (vm mg)) x y z)))"

text \<open>
  A small generator for concrete runs: a buffer of 3 x 2 x 1 nodes (index \<open>3 * y + x\<close>)
  and a property table with air (any content but 1, 2, 3), stone (1), a lamp of
  emission 3 (2) and water (3).
\<close>

definition ex_node :: "content_t \<Rightarrow> u8 \<Rightarrow> MapNode" where
  "ex_node c l = \<lparr>param0 = c, param1 = l, param2 = 0\<rparr>"

definition ex_area :: VoxelArea where
  "ex_area = \<lparr>MinEdge = \<lparr>X = 0, Y = 0, Z = 0\<rparr>, MaxEdge = \<lparr>X = 2, Y = 1, Z = 0\<rparr>\<rparr>"

definition ex_ndef :: NodeDefManager where
  "ex_ndef c =
     (if c = 1 then \<lparr>walkable = True, light_propagates = False, sunlight_propagates = False,
                      light_source = 0, isLiquid = False\<rparr>
      else if c = 2 then \<lparr>walkable = False, light_propagates = True, sunlight_propagates = False,
                      light_source = 3, isLiquid = False\<rparr>
      else if c = 3 then \<lparr>walkable = False, light_propagates = True, sunlight_propagates = False,
                      light_source = 0, isLiquid = True\<rparr>
      else \<lparr>walkable = False, light_propagates = True, sunlight_propagates = True,
             light_source = 0, isLiquid = False\<rparr>)"

definition ex_mapgen :: "(int \<Rightarrow> MapNode) \<Rightarrow> (int \<Rightarrow> int) option \<Rightarrow> Mapgen" where
  "ex_mapgen d hm = \<lparr>water_level = 0, vm = \<lparr>m_area = ex_area, m_data = d\<rparr>, ndef = ex_ndef, heightmap = hm\<rparr>"

text \<open>All air and dark; and the same with stone at \<open>(0, 0, 0)\<close>.\<close>

definition ex_air :: "int \<Rightarrow> MapNode" where
  "ex_air = (\<lambda>i. ex_node 0 0)"

definition ex_ground :: "int \<Rightarrow> MapNode" where
  "ex_ground = ex_air(0 := ex_node 1 0)"

text \<open>
  \<open>column_index\<close> is the value of the counter \<open>index\<close> of \<open>updateHeightmap\<close> when its
  loops stand at column \<open>(x, z)\<close>; \<open>height_entry\<close> reads an entry of the heightmap
  after a run; \<open>ex_tower h\<close> is a generator over a single column of air from Y 40 to
  Y 60 whose heightmap holds \<open>h\<close> everywhere.
\<close>

definition column_index :: "v3s16 \<Rightarrow> v3s16 \<Rightarrow> int \<Rightarrow> int \<Rightarrow> int" where
  "column_index nmin nmax x z = (z - Z nmin) * (X nmax - X nmin + 1) + (x - X nmin)"

definition height_entry :: "Mapgen option \<Rightarrow> int \<Rightarrow> int option" where
  "height_entry r k = (case r of None \<Rightarrow> None | Some mg \<Rightarrow> (case heightmap mg of None \<Rightarrow> None | Some hm \<Rightarrow> Some (hm k)))"

definition ex_tower :: "int \<Rightarrow> Mapgen" where
  "ex_tower h = \<lparr>water_level = 0,
       vm = \<lparr>m_area = \<lparr>MinEdge = \<lparr>X = 0, Y = 40, Z = 0\<rparr>, MaxEdge = \<lparr>X = 0, Y = 60, Z = 0\<rparr>\<rparr>, m_data = ex_air\<rparr>,
       ndef = ex_ndef, heightmap = Some (\<lambda>k. h)\<rparr>"

text \<open>
  \<open>heightmap_inv\<close> describes the counter and the heightmap when the loops of
  \<open>updateHeightmap\<close> stand at column \<open>(x, z)\<close>: the counter is the column's index, the
  entries from there on are the old ones, and every column passed holds the scan result
  or the old entry, as \<open>kept_or_stored\<close> says.
\<close>

definition kept_or_stored :: "int \<Rightarrow> int \<Rightarrow> int \<Rightarrow> int \<Rightarrow> int" where
  "kept_or_stored ymin ymax r old =
     (if (r = ymax \<and> old > ymax) \<or> (r = ymin - 1 \<and> old < ymin) then old else r)"

definition heightmap_inv :: "Mapgen \<Rightarrow> v3s16 \<Rightarrow> v3s16 \<Rightarrow> (int \<Rightarrow> int) \<Rightarrow> int \<Rightarrow> int \<Rightarrow> int \<times> (int \<Rightarrow> int) \<Rightarrow> bool" where
  "heightmap_inv mg nmin nmax hm z x s \<longleftrightarrow>
     fst s = column_index nmin nmax x z
     \<and> (\<forall>j. j \<ge> fst s \<or> j < 0 \<longrightarrow> snd s j = hm j)
     \<and> (\<forall>z' x'. Z nmin \<le> z' \<and> X nmin \<le> x' \<and> x' \<le> X nmax \<and> (z' < z \<or> (z' = z \<and> x' < x)) \<longrightarrow>
           (\<exists>r. findGroundLevel mg \<lparr>X2 = x', Y2 = z'\<rparr> (Y nmin) (Y nmax) = Some r
               \<and> snd s (column_index nmin nmax x' z')
                   = kept_or_stored (Y nmin) (Y nmax) r (hm (column_index nmin nmax x' z'))))"

text \<open>
  For \<open>updateLiquid\<close>: \<open>transition_at mg ymax p\<close> says that the node at \<open>p\<close> differs in
  liquidity from the node above it, the node above the topmost scanned Y counting as
  liquid; \<open>liquid_passed a z x y\<close> is the set of positions of the box \<open>a\<close> that the
  loops (Z, then X, then Y downwards) have passed when they stand at \<open>(x, y, z)\<close>; and
  \<open>liquid_inv\<close> describes the queue at that moment.
\<close>

definition transition_at :: "Mapgen \<Rightarrow> int \<Rightarrow> v3s16 \<Rightarrow> bool" where
  "transition_at mg ymax p \<longleftrightarrow>
     liquid_at mg (X p) (Y p) (Z p) \<noteq> (Y p = ymax \<or> liquid_at mg (X p) (Y p + 1) (Z p))"

definition liquid_passed :: "VoxelArea \<Rightarrow> int \<Rightarrow> int \<Rightarrow> int \<Rightarrow> v3s16 set" where
  "liquid_passed a z x y = {p. contains a p \<and> (Z p < z \<or> (Z p = z \<and> (X p < x \<or> (X p = x \<and> Y p > y))))}"

definition liquid_inv :: "Mapgen \<Rightarrow> v3s16 list \<Rightarrow> VoxelArea \<Rightarrow> int \<Rightarrow> int \<Rightarrow> int \<Rightarrow> v3s16 list \<Rightarrow> bool" where
  "liquid_inv mg q0 a z x y q \<longleftrightarrow>
     set q = set q0 \<union> {p \<in> liquid_passed a z x y. transition_at mg (Y (MaxEdge a)) p}
     \<and> (\<exists>new. q = q0 @ new) \<and> (distinct q0 \<longrightarrow> distinct q)"

text \<open>A buffer with water at \<open>(1, 0, 0)\<close> and \<open>(1, 1, 0)\<close>, and air elsewhere.\<close>

definition ex_pond :: "int \<Rightarrow> MapNode" where
  "ex_pond = ex_air(1 := ex_node 3 0, 4 := ex_node 3 0)"

text \<open>
  A buffer whose upper row holds the unknown content 127 above column 0 and a sunlit
  air node above column 1, in a generator with the water level at 5.
\<close>

definition ex_cave :: Mapgen where
  "ex_cave = (ex_mapgen (ex_air(3 := ex_node 127 0, 4 := ex_node 0 15)) None)\<lparr>water_level := 5\<rparr>"

text \<open>
  For the fixed point of \<open>calcLighting\<close>. \<open>neighbours p\<close> are the six positions next to
  \<open>p\<close>, in the order of the calls. \<open>blocked va nd a d q v\<close> holds when a call of
  \<open>lightSpread\<close> at \<open>q\<close> with light \<open>v\<close> on the buffer \<open>d\<close> returns without writing.
  \<open>grows d d'\<close>: from \<open>d\<close> to \<open>d'\<close> no content changes and no light field decreases.
  \<open>spread_rel va nd a l d d'\<close> relates the buffers before and after calls of
  \<open>lightSpread\<close> with light \<open>l\<close>: only nodes of the region change, the buffer grows,
  every changed node holds less than \<open>l\<close>, and around every changed node of the
  region a further call with the node's own light is blocked.
\<close>

definition neighbours :: "v3s16 \<Rightarrow> v3s16 list" where
  "neighbours p =
     [\<lparr>X = X p, Y = Y p, Z = Z p + 1\<rparr>, \<lparr>X = X p, Y = Y p + 1, Z = Z p\<rparr>, \<lparr>X = X p + 1, Y = Y p, Z = Z p\<rparr>,
      \<lparr>X = X p, Y = Y p, Z = Z p - 1\<rparr>, \<lparr>X = X p, Y = Y p - 1, Z = Z p\<rparr>, \<lparr>X = X p - 1, Y = Y p, Z = Z p\<rparr>]"

definition blocked :: "VoxelArea \<Rightarrow> NodeDefManager \<Rightarrow> VoxelArea \<Rightarrow> (int \<Rightarrow> MapNode) \<Rightarrow> v3s16 \<Rightarrow> u8 \<Rightarrow> bool" where
  "blocked va nd a d q v \<longleftrightarrow>
     v \<le> 1 \<or> \<not> contains a q \<or> v - 1 \<le> param1 (d (index_p va q))
       \<or> \<not> light_propagates (ndef_get nd (d (index_p va q)))"

definition grows :: "(int \<Rightarrow> MapNode) \<Rightarrow> (int \<Rightarrow> MapNode) \<Rightarrow> bool" where
  "grows d d' \<longleftrightarrow>
     (\<forall>j. param0 (d' j) = param0 (d j) \<and> param2 (d' j) = param2 (d j) \<and> param1 (d j) \<le> param1 (d' j))"

definition spread_rel ::
    "VoxelArea \<Rightarrow> NodeDefManager \<Rightarrow> VoxelArea \<Rightarrow> u8 \<Rightarrow> (int \<Rightarrow> MapNode) \<Rightarrow> (int \<Rightarrow> MapNode) \<Rightarrow> bool" where
  "spread_rel va nd a l d d' \<longleftrightarrow>
     grows d d'
     \<and> (\<forall>j. d' j \<noteq> d j \<longrightarrow> j \<in> index_p va ` {p. contains a p} \<and> param1 (d' j) < l)
     \<and> (\<forall>p. contains a p \<and> d' (index_p va p) \<noteq> d (index_p va p) \<longrightarrow>
           (\<forall>q \<in> set (neighbours p). blocked va nd a d' q (param1 (d' (index_p va p)))))"

text \<open>
  \<open>s16_safe a\<close>: the coordinates of the box \<open>a\<close> and of the positions next to it are
  16-bit values.
\<close>

definition s16_safe :: "VoxelArea \<Rightarrow> bool" where
  "s16_safe a \<longleftrightarrow>
     - 32768 < X (MinEdge a) \<and> X (MaxEdge a) < 32767 \<and>
     - 32768 < Y (MinEdge a) \<and> Y (MaxEdge a) < 32767 \<and>
     - 32768 < Z (MinEdge a) \<and> Z (MaxEdge a) < 32767"

text \<open>\<open>spread_all\<close>: calls of \<open>lightSpread\<close> with the same light at one position after the other.\<close>

fun spread_all ::
    "VoxelArea \<Rightarrow> NodeDefManager \<Rightarrow> VoxelArea \<Rightarrow> v3s16 list \<Rightarrow> u8 \<Rightarrow> (int \<Rightarrow> MapNode) \<Rightarrow> (int \<Rightarrow> MapNode) option" where
  "spread_all va nd a [] l d = Some d"
| "spread_all va nd a (q # qs) l d = Option.bind (lightSpread va nd a q l d) (spread_all va nd a qs l)"

text \<open>
  \<open>no_emitters\<close>: no node of the region that the spread pass does not skip is a light
  source. \<open>seed_stable\<close>: the six calls that the spread pass makes around the node at
  \<open>p\<close> are all blocked. \<open>sweep_inv\<close> describes the buffer \<open>d\<close> of the spread pass,
  started on \<open>ds\<close>, when it has passed the positions in \<open>W\<close>.
\<close>

definition no_emitters :: "content_t \<Rightarrow> VoxelArea \<Rightarrow> NodeDefManager \<Rightarrow> VoxelArea \<Rightarrow> (int \<Rightarrow> MapNode) \<Rightarrow> bool" where
  "no_emitters ignore va nd a d \<longleftrightarrow>
     (\<forall>p. contains a p \<and> getContent (d (index_p va p)) \<noteq> ignore
            \<and> light_propagates (ndef_get nd (d (index_p va p)))
          \<longrightarrow> light_source (ndef_get nd (d (index_p va p))) AND 0x0F = 0)"

definition seed_stable :: "content_t \<Rightarrow> VoxelArea \<Rightarrow> NodeDefManager \<Rightarrow> VoxelArea \<Rightarrow> (int \<Rightarrow> MapNode) \<Rightarrow> v3s16 \<Rightarrow> bool" where
  "seed_stable ignore va nd a d p \<longleftrightarrow>
     (getContent (d (index_p va p)) \<noteq> ignore \<and> light_propagates (ndef_get nd (d (index_p va p)))
        \<and> param1 (d (index_p va p)) AND 0x0F \<noteq> 0
      \<longrightarrow> (\<forall>q \<in> set (neighbours p). blocked va nd a d q ((param1 (d (index_p va p)) AND 0x0F) - 1)))"

definition sweep_inv ::
    "content_t \<Rightarrow> VoxelArea \<Rightarrow> NodeDefManager \<Rightarrow> VoxelArea \<Rightarrow> (int \<Rightarrow> MapNode) \<Rightarrow> v3s16 set \<Rightarrow> (int \<Rightarrow> MapNode) \<Rightarrow> bool" where
  "sweep_inv ignore va nd a ds W d \<longleftrightarrow>
     spread_rel va nd a 15 ds d \<and> (\<forall>p. p \<in> W \<and> contains a p \<longrightarrow> seed_stable ignore va nd a d p)"

text \<open>
  For the sun pass: \<open>sun_enters\<close> is the test of the cell above a column,
  \<open>sunlit\<close> the set of positions of the region that the pass sets to full sunlight,
  and \<open>cols_done a z x\<close> the positions in the columns that the loops (Z, then X) have
  passed when they stand at column \<open>(x, z)\<close>.
\<close>

definition sun_enters :: "content_t \<Rightarrow> Mapgen \<Rightarrow> VoxelArea \<Rightarrow> (int \<Rightarrow> MapNode) \<Rightarrow> int \<Rightarrow> int \<Rightarrow> bool" where
  "sun_enters ignore mg a d x z \<longleftrightarrow>
     (if getContent (d (index (m_area (vm mg)) x (Y (MaxEdge a) + 1) z)) = ignore
      then \<not> water_level mg \<ge> Y (MaxEdge a)
      else param1 (d (index (m_area (vm mg)) x (Y (MaxEdge a) + 1) z)) AND 0x0F = LIGHT_SUN)"

definition sunlit :: "content_t \<Rightarrow> Mapgen \<Rightarrow> VoxelArea \<Rightarrow> (int \<Rightarrow> MapNode) \<Rightarrow> v3s16 set" where
  "sunlit ignore mg a d =
     {p. contains a p \<and> sun_enters ignore mg a d (X p) (Z p)
         \<and> (\<forall>y'. Y p \<le> y' \<and> y' \<le> Y (MaxEdge a) \<longrightarrow>
               sunlight_propagates (ndef_get (ndef mg) (d (index (m_area (vm mg)) (X p) y' (Z p)))))}"

definition cols_done :: "VoxelArea \<Rightarrow> int \<Rightarrow> int \<Rightarrow> v3s16 set" where
  "cols_done a z x = {p. contains a p \<and> (Z p < z \<or> (Z p = z \<and> X p < x))}"

text \<open>
  \<open>fits va a\<close>: the box \<open>a\<close> and the row of cells above its top edge lie inside the
  buffer area \<open>va\<close>.
\<close>

definition fits :: "VoxelArea \<Rightarrow> VoxelArea \<Rightarrow> bool" where
  "fits va a \<longleftrightarrow> contains va (MinEdge a) \<and> contains va (MaxEdge a) \<and> Y (MaxEdge a) + 1 \<le> Y (MaxEdge va)"

text \<open>
  Reading the result of a run: \<open>light_at r p\<close> is the light field of the node at
  \<open>p\<close> after a run that returned \<open>r\<close>. \<open>calcLighting_twice\<close> is a second run on
  the result of a first one. \<open>ex_lamp\<close> is a row of three nodes, air holding light 6, a
  lamp (emission 3) holding light 4, and dark air; \<open>ex_glow\<close> is dark air next to air
  holding light 10; \<open>ex_torch\<close> is dark air next to a dark lamp; \<open>ex_sky\<close> is dark air
  with a sunlit node above column 1.
\<close>

definition light_at :: "Mapgen option \<Rightarrow> v3s16 \<Rightarrow> u8 option" where
  "light_at r p = (case r of None \<Rightarrow> None | Some mg \<Rightarrow> Some (param1 (m_data (vm mg) (index_p (m_area (vm mg)) p))))"

definition calcLighting_twice :: "content_t \<Rightarrow> Mapgen \<Rightarrow> v3s16 \<Rightarrow> v3s16 \<Rightarrow> Mapgen option" where
  "calcLighting_twice ignore mg nmin nmax =
     (case calcLighting ignore mg nmin nmax of None \<Rightarrow> None | Some mg' \<Rightarrow> calcLighting ignore mg' nmin nmax)"

definition ex_lamp :: "int \<Rightarrow> MapNode" where
  "ex_lamp = ex_air(0 := ex_node 0 6, 1 := ex_node 2 4)"

definition ex_glow :: "int \<Rightarrow> MapNode" where
  "ex_glow = ex_air(0 := ex_node 0 10)"

definition ex_torch :: "int \<Rightarrow> MapNode" where
  "ex_torch = ex_air(0 := ex_node 2 0)"

definition ex_sky :: "int \<Rightarrow> MapNode" where
  "ex_sky = ex_air(4 := ex_node 0 15)"

section \<open>Loops\<close>

declare for_int.simps [simp del] for_int_opt.simps [simp del] sun_shaft.simps [simp del]

declare for_s16_up.simps [code] for_s16_down.simps [code] ground_scan.simps [code] lightSpread.simps [code]

lemma for_int_rule:
  assumes "P v s"
    and "\<And>k t. v \<le> k \<Longrightarrow> k \<le> hi \<Longrightarrow> P k t \<Longrightarrow> P (k + 1) (body k t)"
  shows "P (max v (hi + 1)) (for_int v hi body s)"
  using assms
proof (induction v hi body s rule: for_int.induct)
  case (1 v hi body s)
  show ?case
  proof (cases "v \<le> hi")
    case True
    have "P (max (v + 1) (hi + 1)) (for_int (v + 1) hi body (body v s))"
    proof (rule "1.IH"[OF True])
      show "P (v + 1) (body v s)" using "1.prems" True by simp
    next
      fix k t assume "v + 1 \<le> k" "k \<le> hi" "P k t"
      then show "P (k + 1) (body k t)" using "1.prems"(2)[of k t] by simp
    qed
    moreover have "max (v + 1) (hi + 1) = max v (hi + 1)" using True by simp
    ultimately show ?thesis using True by (simp add: for_int.simps[of v hi])
  next
    case False
    then have "max v (hi + 1) = v" by simp
    with False "1.prems"(1) show ?thesis by (simp add: for_int.simps[of v hi])
  qed
qed

lemma s16_id: "- 32768 \<le> v \<Longrightarrow> v \<le> 32767 \<Longrightarrow> s16 v = v"
  by (simp add: s16_def)

lemma for_s16_up_rule:
  assumes "- 32768 \<le> v" "hi < 32767" "P v s"
    and "\<And>k t. v \<le> k \<Longrightarrow> k \<le> hi \<Longrightarrow> P k t \<Longrightarrow> \<exists>t'. body k t = Some t' \<and> P (k + 1) t'"
  shows "\<exists>s'. for_s16_up v hi body s = Some s' \<and> P (max v (hi + 1)) s'"
  using assms
proof (induction "nat (hi + 1 - v)" arbitrary: v s)
  case 0
  then have "\<not> v \<le> hi" "max v (hi + 1) = v" by auto
  with 0 show ?case by (subst for_s16_up.simps) simp
next
  case (Suc n)
  then have le: "v \<le> hi" by simp
  from Suc.prems(4)[OF order_refl le Suc.prems(3)]
  obtain t' where t': "body v s = Some t'" "P (v + 1) t'" by blast
  have s: "s16 (v + 1) = v + 1" using le Suc.prems(1,2) by (simp add: s16_id)
  have n: "n = nat (hi + 1 - (v + 1))" using Suc.hyps(2) by simp
  have "\<exists>s'. for_s16_up (v + 1) hi body t' = Some s' \<and> P (max (v + 1) (hi + 1)) s'"
  proof (rule Suc.hyps(1)[OF n _ Suc.prems(2) t'(2)])
    show "- 32768 \<le> v + 1" using Suc.prems(1) by simp
  next
    fix k t assume "v + 1 \<le> k" "k \<le> hi" "P k t"
    then show "\<exists>t'. body k t = Some t' \<and> P (k + 1) t'" using Suc.prems(4)[of k t] by simp
  qed
  moreover have "max (v + 1) (hi + 1) = max v (hi + 1)" using le by simp
  moreover have "for_s16_up v hi body s = for_s16_up (v + 1) hi body t'"
    using le by (subst for_s16_up.simps) (simp add: t' s)
  ultimately show ?case by simp
qed

lemma for_s16_down_rule:
  assumes "v \<le> 32767" "- 32768 < lo" "P v s"
    and "\<And>k t. lo \<le> k \<Longrightarrow> k \<le> v \<Longrightarrow> P k t \<Longrightarrow> \<exists>t'. body k t = Some t' \<and> P (k - 1) t'"
  shows "\<exists>s'. for_s16_down v lo body s = Some s' \<and> P (min v (lo - 1)) s'"
  using assms
proof (induction "nat (v + 1 - lo)" arbitrary: v s)
  case 0
  then have "\<not> lo \<le> v" "min v (lo - 1) = v" by auto
  with 0 show ?case by (subst for_s16_down.simps) simp
next
  case (Suc n)
  then have le: "lo \<le> v" by simp
  from Suc.prems(4)[OF le order_refl Suc.prems(3)]
  obtain t' where t': "body v s = Some t'" "P (v - 1) t'" by blast
  have s: "s16 (v - 1) = v - 1" using le Suc.prems(1,2) by (simp add: s16_id)
  have n: "n = nat (v - 1 + 1 - lo)" using Suc.hyps(2) by simp
  have "\<exists>s'. for_s16_down (v - 1) lo body t' = Some s' \<and> P (min (v - 1) (lo - 1)) s'"
  proof (rule Suc.hyps(1)[OF n _ Suc.prems(2) t'(2)])
    show "v - 1 \<le> 32767" using Suc.prems(1) by simp
  next
    fix k t assume "lo \<le> k" "k \<le> v - 1" "P k t"
    then show "\<exists>t'. body k t = Some t' \<and> P (k - 1) t'" using Suc.prems(4)[of k t] by simp
  qed
  moreover have "min (v - 1) (lo - 1) = min v (lo - 1)" using le by simp
  moreover have "for_s16_down v lo body s = for_s16_down (v - 1) lo body t'"
    using le by (subst for_s16_down.simps) (simp add: t' s)
  ultimately show ?case by simp
qed

lemma for_int_opt_rule:
  assumes "P v s"
    and "\<And>k t. v \<le> k \<Longrightarrow> k \<le> hi \<Longrightarrow> P k t \<Longrightarrow> \<exists>t'. body k t = Some t' \<and> P (k + 1) t'"
  shows "\<exists>s'. for_int_opt v hi body s = Some s' \<and> P (max v (hi + 1)) s'"
  using assms
proof (induction v hi body s rule: for_int_opt.induct)
  case (1 v hi body s)
  show ?case
  proof (cases "v \<le> hi")
    case True
    from "1.prems"(2)[OF order_refl True "1.prems"(1)]
    obtain t' where t': "body v s = Some t'" "P (v + 1) t'" by blast
    have "\<exists>s'. for_int_opt (v + 1) hi body t' = Some s' \<and> P (max (v + 1) (hi + 1)) s'"
    proof (rule "1.IH"[OF True t'(1) t'(2)])
      fix k t assume "v + 1 \<le> k" "k \<le> hi" "P k t"
      then show "\<exists>t'. body k t = Some t' \<and> P (k + 1) t'" using "1.prems"(2)[of k t] by simp
    qed
    moreover have "max (v + 1) (hi + 1) = max v (hi + 1)" using True by simp
    ultimately show ?thesis using True t'(1) by (simp add: for_int_opt.simps[of v hi])
  next
    case False
    then have "max v (hi + 1) = v" by simp
    with False "1.prems"(1) show ?thesis by (simp add: for_int_opt.simps[of v hi])
  qed
qed

section \<open>Addressing\<close>

lemma mixed_radix_unique:
  fixes m :: int
  assumes "0 \<le> r" "r < m" "0 \<le> r'" "r' < m" "q * m + r = q' * m + r'"
  shows "q = q' \<and> r = r'"
proof -
  have m: "m \<noteq> 0" using assms by auto
  have 1: "(q * m + r) div m = q" using assms(1,2) m by (simp add: div_pos_pos_trivial)
  have 2: "(q' * m + r') div m = q'" using assms(3,4) m by (simp add: div_pos_pos_trivial)
  from assms(5) have "(q * m + r) div m = (q' * m + r') div m" by (rule arg_cong)
  then have "q = q'" unfolding 1 2 .
  with assms(5) show ?thesis by simp
qed

lemma index_inj:
  assumes "contains a p" "contains a q" "index_p a p = index_p a q"
  shows "p = q"
proof -
  let ?ex = "X (getExtent a)" and ?ey = "Y (getExtent a)"
  let ?dx = "X p - X (MinEdge a)" and ?dy = "Y p - Y (MinEdge a)" and ?dz = "Z p - Z (MinEdge a)"
  let ?dx' = "X q - X (MinEdge a)" and ?dy' = "Y q - Y (MinEdge a)" and ?dz' = "Z q - Z (MinEdge a)"
  have bx: "0 \<le> ?dx" "?dx < ?ex" "0 \<le> ?dx'" "?dx' < ?ex"
    using assms(1,2) by (auto simp: contains_def getExtent_def)
  have by': "0 \<le> ?dy" "?dy < ?ey" "0 \<le> ?dy'" "?dy' < ?ey"
    using assms(1,2) by (auto simp: contains_def getExtent_def)
  have "(?dz * ?ey + ?dy) * ?ex + ?dx = (?dz' * ?ey + ?dy') * ?ex + ?dx'"
    using assms(3) by (simp add: index_p_def index_def algebra_simps)
  from mixed_radix_unique[OF bx this] have 1: "?dz * ?ey + ?dy = ?dz' * ?ey + ?dy'" and x: "?dx = ?dx'"
    by auto
  from mixed_radix_unique[OF by' 1] have "?dz = ?dz'" "?dy = ?dy'" by auto
  with x show ?thesis by (cases p, cases q) simp
qed

section \<open>Ground scans\<close>

lemma index_step_y: "add_y (getExtent a) (index a x y z) (- 1) = index a x (y - 1) z"
  by (simp add: add_y_def index_def algebra_simps)

lemma ground_scan_result:
  assumes "- 32768 < ymin" "y \<le> 32767" "ymin \<le> y + 1"
  shows "\<exists>r. ground_scan (vm mg) (ndef mg) ymin y (index (m_area (vm mg)) x y z) = Some r
            \<and> ymin - 1 \<le> r \<and> r \<le> y
            \<and> (\<forall>j. r < j \<and> j \<le> y \<longrightarrow> \<not> walkable_at mg x j z)
            \<and> (r \<noteq> ymin - 1 \<longrightarrow> walkable_at mg x r z)"
  using assms
proof (induction "nat (y + 1 - ymin)" arbitrary: y)
  case 0
  then have "y = ymin - 1" by simp
  then have "ground_scan (vm mg) (ndef mg) ymin y (index (m_area (vm mg)) x y z) = Some (ymin - 1)"
    by (subst ground_scan.simps) simp
  moreover have "\<forall>j. ymin - 1 < j \<and> j \<le> y \<longrightarrow> \<not> walkable_at mg x j z"
    using \<open>y = ymin - 1\<close> by auto
  ultimately show ?case using \<open>y = ymin - 1\<close> by simp
next
  case (Suc n)
  then have ge: "ymin \<le> y" by simp
  show ?case
  proof (cases "walkable_at mg x y z")
    case True
    with ge have "ground_scan (vm mg) (ndef mg) ymin y (index (m_area (vm mg)) x y z) = Some y"
      by (subst ground_scan.simps) (simp add: walkable_at_def)
    with True ge show ?thesis by auto
  next
    case False
    have s: "s16 (y - 1) = y - 1" using ge Suc.prems by (simp add: s16_id)
    have step: "ground_scan (vm mg) (ndef mg) ymin y (index (m_area (vm mg)) x y z)
        = ground_scan (vm mg) (ndef mg) ymin (y - 1) (index (m_area (vm mg)) x (y - 1) z)"
      using False ge by (subst ground_scan.simps) (simp add: walkable_at_def s index_step_y)
    have "n = nat (y - 1 + 1 - ymin)" using Suc.hyps(2) by simp
    from Suc.hyps(1)[OF this] Suc.prems ge
    obtain r where r: "ground_scan (vm mg) (ndef mg) ymin (y - 1) (index (m_area (vm mg)) x (y - 1) z) = Some r"
      "ymin - 1 \<le> r" "r \<le> y - 1" "\<forall>j. r < j \<and> j \<le> y - 1 \<longrightarrow> \<not> walkable_at mg x j z"
      "r \<noteq> ymin - 1 \<longrightarrow> walkable_at mg x r z"
      by auto
    have "\<forall>j. r < j \<and> j \<le> y \<longrightarrow> \<not> walkable_at mg x j z"
    proof (intro allI impI)
      fix j assume "r < j \<and> j \<le> y"
      then show "\<not> walkable_at mg x j z" using r(4) False by (cases "j = y") auto
    qed
    with r step show ?thesis by auto
  qed
qed

text \<open>
  C6. For Y bounds that are 16-bit values with the lower one above -32768 and not
  above the upper one, both scans return. \<open>findGroundLevelFull\<close> returns a value
  \<open>r\<close> between the buffer's minimum edge Y minus one and its maximum edge Y such
  that no node of the column above \<open>r\<close> is walkable and, unless \<open>r\<close> is the minimum
  edge Y minus one, the node at \<open>r\<close> is walkable: the topmost walkable Y, or the
  minimum edge Y minus one when the column has no walkable node. \<open>findGroundLevel\<close>
  returns the same for the range from \<open>ymin\<close> to \<open>ymax\<close>, with \<open>ymin - 1\<close> when
  the range holds no walkable node.
\<close>

theorem ground_level_topmost:
  assumes "- 32768 < ymin" and "ymin \<le> ymax" and "ymax \<le> 32767"
    and "- 32768 < Y (MinEdge (m_area (vm mg)))"
    and "Y (MinEdge (m_area (vm mg))) \<le> Y (MaxEdge (m_area (vm mg)))"
    and "Y (MaxEdge (m_area (vm mg))) \<le> 32767"
  shows "(\<exists>r. findGroundLevelFull mg p2d = Some r
            \<and> Y (MinEdge (m_area (vm mg))) - 1 \<le> r \<and> r \<le> Y (MaxEdge (m_area (vm mg)))
            \<and> (\<forall>j. r < j \<and> j \<le> Y (MaxEdge (m_area (vm mg))) \<longrightarrow> \<not> walkable_at mg (X2 p2d) j (Y2 p2d))
            \<and> (r \<noteq> Y (MinEdge (m_area (vm mg))) - 1 \<longrightarrow> walkable_at mg (X2 p2d) r (Y2 p2d)))
       \<and> (\<exists>r. findGroundLevel mg p2d ymin ymax = Some r
            \<and> ymin - 1 \<le> r \<and> r \<le> ymax
            \<and> (\<forall>j. r < j \<and> j \<le> ymax \<longrightarrow> \<not> walkable_at mg (X2 p2d) j (Y2 p2d))
            \<and> (r \<noteq> ymin - 1 \<longrightarrow> walkable_at mg (X2 p2d) r (Y2 p2d)))"
proof
  let ?lo = "Y (MinEdge (m_area (vm mg)))" and ?hi = "Y (MaxEdge (m_area (vm mg)))"
  from assms(4-6) have "?lo \<le> ?hi + 1" by simp
  from ground_scan_result[OF assms(4) assms(6) this, of mg "X2 p2d" "Y2 p2d"]
  obtain r where r: "ground_scan (vm mg) (ndef mg) ?lo ?hi (index (m_area (vm mg)) (X2 p2d) ?hi (Y2 p2d)) = Some r"
    "?lo - 1 \<le> r" "r \<le> ?hi" "\<forall>j. r < j \<and> j \<le> ?hi \<longrightarrow> \<not> walkable_at mg (X2 p2d) j (Y2 p2d)"
    "r \<noteq> ?lo - 1 \<longrightarrow> walkable_at mg (X2 p2d) r (Y2 p2d)"
    by blast
  have "(if ?lo \<le> r then r else s16 (?lo - 1)) = r"
    using r(2) assms(4-6) by (auto simp: s16_id)
  with r show "\<exists>r. findGroundLevelFull mg p2d = Some r
            \<and> ?lo - 1 \<le> r \<and> r \<le> ?hi
            \<and> (\<forall>j. r < j \<and> j \<le> ?hi \<longrightarrow> \<not> walkable_at mg (X2 p2d) j (Y2 p2d))
            \<and> (r \<noteq> ?lo - 1 \<longrightarrow> walkable_at mg (X2 p2d) r (Y2 p2d))"
    by (simp add: findGroundLevelFull_def Let_def)
next
  from assms(1-3) have "ymin \<le> ymax + 1" by simp
  from ground_scan_result[OF assms(1) assms(3) this, of mg "X2 p2d" "Y2 p2d"]
  show "\<exists>r. findGroundLevel mg p2d ymin ymax = Some r
            \<and> ymin - 1 \<le> r \<and> r \<le> ymax
            \<and> (\<forall>j. r < j \<and> j \<le> ymax \<longrightarrow> \<not> walkable_at mg (X2 p2d) j (Y2 p2d))
            \<and> (r \<noteq> ymin - 1 \<longrightarrow> walkable_at mg (X2 p2d) r (Y2 p2d))"
    by (simp add: findGroundLevel_def)
qed

theorem ground_level_topmost_witness:
  "findGroundLevelFull (ex_mapgen ex_ground None) \<lparr>X2 = 0, Y2 = 0\<rparr> = Some 0
   \<and> findGroundLevel (ex_mapgen ex_ground None) \<lparr>X2 = 1, Y2 = 0\<rparr> 0 1 = Some (- 1)"
proof -
  have ev: "findGroundLevelFull (ex_mapgen ex_ground None) \<lparr>X2 = 0, Y2 = 0\<rparr> = Some 0"
      "findGroundLevel (ex_mapgen ex_ground None) \<lparr>X2 = 1, Y2 = 0\<rparr> 0 1 = Some (- 1)"
    by code_simp+
  have h: "- 32768 < (0::int)" "(0::int) \<le> 1" "(1::int) \<le> 32767"
      "- 32768 < Y (MinEdge (m_area (vm (ex_mapgen ex_ground None))))"
      "Y (MinEdge (m_area (vm (ex_mapgen ex_ground None)))) \<le> Y (MaxEdge (m_area (vm (ex_mapgen ex_ground None))))"
      "Y (MaxEdge (m_area (vm (ex_mapgen ex_ground None)))) \<le> 32767"
    by (simp_all add: ex_mapgen_def ex_area_def)
  have "\<exists>r. findGroundLevelFull (ex_mapgen ex_ground None) \<lparr>X2 = 0, Y2 = 0\<rparr> = Some r"
    using ground_level_topmost[OF h, of "\<lparr>X2 = 0, Y2 = 0\<rparr>"] by blast
  moreover have "\<exists>r. findGroundLevel (ex_mapgen ex_ground None) \<lparr>X2 = 1, Y2 = 0\<rparr> 0 1 = Some r"
    using ground_level_topmost[OF h, of "\<lparr>X2 = 1, Y2 = 0\<rparr>"] by blast
  ultimately show ?thesis using ev by simp
qed

section \<open>setLighting\<close>

lemma paint_empty: "paint {} l d = d"
  by (simp add: paint_def)

lemma set_param1_paint: "set_param1 (paint W l d) i l = paint (insert i W) l d"
  by (auto simp: set_param1_def paint_def fun_eq_iff)

lemma paint_paint: "paint A l (paint B l d) = paint (A \<union> B) l d"
  by (auto simp: paint_def fun_eq_iff)

lemma swept_start: "swept a (Z (MinEdge a)) (Y (MinEdge a)) (X (MinEdge a)) = {}"
  by (auto simp: swept_def contains_def)

lemma swept_row_end:
  "swept a z y (max (X (MinEdge a)) (X (MaxEdge a) + 1)) = swept a z (y + 1) (X (MinEdge a))"
  by (auto simp: swept_def contains_def)

lemma swept_slab_end:
  "swept a z (max (Y (MinEdge a)) (Y (MaxEdge a) + 1)) (X (MinEdge a)) = swept a (z + 1) (Y (MinEdge a)) (X (MinEdge a))"
  by (auto simp: swept_def contains_def)

lemma swept_end:
  "swept a (max (Z (MinEdge a)) (Z (MaxEdge a) + 1)) (Y (MinEdge a)) (X (MinEdge a)) = {p. contains a p}"
  by (auto simp: swept_def contains_def)

lemma v3s16_eq_iff: "p = \<lparr>X = x, Y = y, Z = z\<rparr> \<longleftrightarrow> X p = x \<and> Y p = y \<and> Z p = z" for p :: v3s16
  by (cases p) auto

lemma swept_step:
  assumes "contains a \<lparr>X = x, Y = y, Z = z\<rparr>"
  shows "swept a z y (x + 1) = insert \<lparr>X = x, Y = y, Z = z\<rparr> (swept a z y x)"
  using assms by (auto simp: swept_def contains_def v3s16_eq_iff)

lemma index_step_x: "index va (x + 1) y z = index va x y z + 1"
  by (simp add: index_def)

lemma set_param1_paint_image:
  "set_param1 (paint (index_p va ` S) l d) (index va x y z) l = paint (index_p va ` insert \<lparr>X = x, Y = y, Z = z\<rparr> S) l d"
  by (simp add: set_param1_paint index_p_def)

lemma setLighting_row:
  assumes "Y (MinEdge a) \<le> y" "y \<le> Y (MaxEdge a)" "Z (MinEdge a) \<le> z" "z \<le> Z (MaxEdge a)"
  shows "for_int (X (MinEdge a)) (X (MaxEdge a)) (\<lambda>x (i, d). (i + 1, set_param1 d i l))
            (index va (X (MinEdge a)) y z, paint (index_p va ` swept a z y (X (MinEdge a))) l d0)
     = (index va (max (X (MinEdge a)) (X (MaxEdge a) + 1)) y z, paint (index_p va ` swept a z (y + 1) (X (MinEdge a))) l d0)"
  unfolding swept_row_end[symmetric]
proof (rule for_int_rule[where P = "\<lambda>k s. s = (index va k y z, paint (index_p va ` swept a z y k) l d0)"])
  fix k t
  assume k: "X (MinEdge a) \<le> k" "k \<le> X (MaxEdge a)" and t: "t = (index va k y z, paint (index_p va ` swept a z y k) l d0)"
  from k assms have "contains a \<lparr>X = k, Y = y, Z = z\<rparr>" by (simp add: contains_def)
  then show "(case t of (i, d) \<Rightarrow> (i + 1, set_param1 d i l))
      = (index va (k + 1) y z, paint (index_p va ` swept a z y (k + 1)) l d0)"
    by (simp add: t set_param1_paint_image index_step_x swept_step)
qed simp

lemma setLighting_slab:
  assumes "Z (MinEdge a) \<le> z" "z \<le> Z (MaxEdge a)"
  shows "for_int (Y (MinEdge a)) (Y (MaxEdge a))
           (\<lambda>y d. snd (for_int (X (MinEdge a)) (X (MaxEdge a)) (\<lambda>x (i, d). (i + 1, set_param1 d i l))
                          (index va (X (MinEdge a)) y z, d)))
           (paint (index_p va ` swept a z (Y (MinEdge a)) (X (MinEdge a))) l d0)
     = paint (index_p va ` swept a (z + 1) (Y (MinEdge a)) (X (MinEdge a))) l d0"
  unfolding swept_slab_end[symmetric]
proof (rule for_int_rule[where P = "\<lambda>k d. d = paint (index_p va ` swept a z k (X (MinEdge a))) l d0"])
  fix k t
  assume k: "Y (MinEdge a) \<le> k" "k \<le> Y (MaxEdge a)" and t: "t = paint (index_p va ` swept a z k (X (MinEdge a))) l d0"
  show "snd (for_int (X (MinEdge a)) (X (MaxEdge a)) (\<lambda>x (i, d). (i + 1, set_param1 d i l))
                          (index va (X (MinEdge a)) k z, t)) = paint (index_p va ` swept a z (k + 1) (X (MinEdge a))) l d0"
    unfolding t by (simp add: setLighting_row[OF k assms])
qed simp

lemma setLighting_box:
  "for_int (Z (MinEdge a)) (Z (MaxEdge a))
     (\<lambda>z. for_int (Y (MinEdge a)) (Y (MaxEdge a))
        (\<lambda>y d. snd (for_int (X (MinEdge a)) (X (MaxEdge a)) (\<lambda>x (i, d). (i + 1, set_param1 d i l))
                          (index va (X (MinEdge a)) y z, d))))
     d0
   = paint (index_p va ` {p. contains a p}) l d0"
  unfolding swept_end[symmetric]
proof (rule for_int_rule[where P = "\<lambda>k d. d = paint (index_p va ` swept a k (Y (MinEdge a)) (X (MinEdge a))) l d0"])
  show "d0 = paint (index_p va ` swept a (Z (MinEdge a)) (Y (MinEdge a)) (X (MinEdge a))) l d0"
    by (simp add: swept_start paint_empty)
next
  fix k t
  assume k: "Z (MinEdge a) \<le> k" "k \<le> Z (MaxEdge a)" and t: "t = paint (index_p va ` swept a k (Y (MinEdge a)) (X (MinEdge a))) l d0"
  show "for_int (Y (MinEdge a)) (Y (MaxEdge a))
        (\<lambda>y d. snd (for_int (X (MinEdge a)) (X (MaxEdge a)) (\<lambda>x (i, d). (i + 1, set_param1 d i l))
                          (index va (X (MinEdge a)) y k, d))) t
       = paint (index_p va ` swept a (k + 1) (Y (MinEdge a)) (X (MinEdge a))) l d0"
    unfolding t by (rule setLighting_slab[OF k])
qed

lemma setLighting_data:
  "m_data (vm (setLighting mg nmin nmax l))
     = paint (index_p (m_area (vm mg)) ` {p. contains \<lparr>MinEdge = nmin, MaxEdge = nmax\<rparr> p}) l (m_data (vm mg))"
  using setLighting_box[where a = "\<lparr>MinEdge = nmin, MaxEdge = nmax\<rparr>" and va = "m_area (vm mg)" and l = l and ?d0.0 = "m_data (vm mg)"]
  by (simp add: setLighting_def Let_def)

text \<open>
  C10. With both corners of the region inside the buffer's area, \<open>setLighting\<close> leaves
  every node of the region as it was except for its light field, which is the given
  value (so nothing is propagated); every node of the buffer outside the region is
  unchanged; and no node of the buffer changes its content or its second parameter.
  The area and the heightmap are untouched.
\<close>

theorem setLighting_fills:
  assumes "contains (m_area (vm mg)) nmin" and "contains (m_area (vm mg)) nmax"
  shows "(\<forall>p. contains \<lparr>MinEdge = nmin, MaxEdge = nmax\<rparr> p \<longrightarrow>
              m_data (vm (setLighting mg nmin nmax light)) (index_p (m_area (vm mg)) p)
                = (m_data (vm mg) (index_p (m_area (vm mg)) p))\<lparr>param1 := light\<rparr>)
       \<and> (\<forall>p. contains (m_area (vm mg)) p \<and> \<not> contains \<lparr>MinEdge = nmin, MaxEdge = nmax\<rparr> p \<longrightarrow>
              m_data (vm (setLighting mg nmin nmax light)) (index_p (m_area (vm mg)) p)
                = m_data (vm mg) (index_p (m_area (vm mg)) p))
       \<and> (\<forall>i. param0 (m_data (vm (setLighting mg nmin nmax light)) i) = param0 (m_data (vm mg) i)
             \<and> param2 (m_data (vm (setLighting mg nmin nmax light)) i) = param2 (m_data (vm mg) i))
       \<and> m_area (vm (setLighting mg nmin nmax light)) = m_area (vm mg)
       \<and> heightmap (setLighting mg nmin nmax light) = heightmap mg"
proof -
  let ?va = "m_area (vm mg)" and ?a = "\<lparr>MinEdge = nmin, MaxEdge = nmax\<rparr>"
  have sub: "contains ?va p" if "contains ?a p" for p
    using that assms by (auto simp: contains_def)
  have out: "index_p ?va p \<notin> index_p ?va ` {p. contains ?a p}"
    if "contains ?va p" "\<not> contains ?a p" for p
  proof
    assume "index_p ?va p \<in> index_p ?va ` {p. contains ?a p}"
    then obtain q where q: "contains ?a q" "index_p ?va p = index_p ?va q" by auto
    from index_inj[OF that(1) sub[OF q(1)] q(2)] q(1) that(2) show False by simp
  qed
  show ?thesis
    by (auto simp: setLighting_data paint_def out) (simp_all add: setLighting_def Let_def)
qed

theorem setLighting_fills_witness:
  "m_data (vm (setLighting (ex_mapgen ex_ground None) \<lparr>X = 0, Y = 0, Z = 0\<rparr> \<lparr>X = 1, Y = 0, Z = 0\<rparr> 9)) 1 = ex_node 0 9
   \<and> m_data (vm (setLighting (ex_mapgen ex_ground None) \<lparr>X = 0, Y = 0, Z = 0\<rparr> \<lparr>X = 1, Y = 0, Z = 0\<rparr> 9)) 0 = ex_node 1 9
   \<and> m_data (vm (setLighting (ex_mapgen ex_ground None) \<lparr>X = 0, Y = 0, Z = 0\<rparr> \<lparr>X = 1, Y = 0, Z = 0\<rparr> 9)) 2 = ex_node 0 0"
proof -
  let ?mg = "ex_mapgen ex_ground None"
  have h: "contains (m_area (vm ?mg)) \<lparr>X = 0, Y = 0, Z = 0\<rparr>" "contains (m_area (vm ?mg)) \<lparr>X = 1, Y = 0, Z = 0\<rparr>"
    by (simp_all add: ex_mapgen_def ex_area_def contains_def)
  note t = setLighting_fills[OF h, of 9]
  have i: "index_p ex_area \<lparr>X = 0, Y = 0, Z = 0\<rparr> = 0" "index_p ex_area \<lparr>X = 1, Y = 0, Z = 0\<rparr> = 1"
      "index_p ex_area \<lparr>X = 2, Y = 0, Z = 0\<rparr> = 2"
    by (simp_all add: index_p_def index_def getExtent_def ex_area_def)
  have a: "m_area (vm ?mg) = ex_area" "m_data (vm ?mg) = ex_ground" by (simp_all add: ex_mapgen_def)
  from t have "m_data (vm (setLighting ?mg \<lparr>X = 0, Y = 0, Z = 0\<rparr> \<lparr>X = 1, Y = 0, Z = 0\<rparr> 9)) (index_p ex_area \<lparr>X = 1, Y = 0, Z = 0\<rparr>)
      = (ex_ground (index_p ex_area \<lparr>X = 1, Y = 0, Z = 0\<rparr>))\<lparr>param1 := 9\<rparr>"
    unfolding a by (simp add: contains_def)
  moreover from t have "m_data (vm (setLighting ?mg \<lparr>X = 0, Y = 0, Z = 0\<rparr> \<lparr>X = 1, Y = 0, Z = 0\<rparr> 9)) (index_p ex_area \<lparr>X = 0, Y = 0, Z = 0\<rparr>)
      = (ex_ground (index_p ex_area \<lparr>X = 0, Y = 0, Z = 0\<rparr>))\<lparr>param1 := 9\<rparr>"
    unfolding a by (simp add: contains_def)
  moreover from t have "m_data (vm (setLighting ?mg \<lparr>X = 0, Y = 0, Z = 0\<rparr> \<lparr>X = 1, Y = 0, Z = 0\<rparr> 9)) (index_p ex_area \<lparr>X = 2, Y = 0, Z = 0\<rparr>)
      = ex_ground (index_p ex_area \<lparr>X = 2, Y = 0, Z = 0\<rparr>)"
    unfolding a by (simp add: contains_def ex_area_def)
  ultimately show ?thesis
    unfolding i by (simp add: ex_ground_def ex_air_def ex_node_def)
qed

section \<open>lightSpread\<close>

lemma u8_pred_less: "\<not> light \<le> 1 \<Longrightarrow> unat (light - 1) < unat light" for light :: u8
  by (metis One_nat_def diff_less less_numeral_extra(1) unat_gt_0 unat_minus_one word_le_0_iff word_le_less_eq word_less_1 linorder_not_le not_less_iff_gr_or_eq)

lemma lightSpread_skip:
  "light \<le> 1 \<or> \<not> contains a p \<Longrightarrow> lightSpread va nd a p light d = Some d"
  by (subst lightSpread.simps) simp

lemma lightSpread_blocked:
  "light - 1 \<le> param1 (d (index_p va p)) \<or> \<not> light_propagates (ndef_get nd (d (index_p va p)))
     \<Longrightarrow> lightSpread va nd a p light d = Some d"
  by (subst lightSpread.simps) (simp add: Let_def)

lemma lightSpread_write:
  assumes "\<not> light \<le> 1" "contains a p"
    and "\<not> light - 1 \<le> param1 (d (index_p va p))" "light_propagates (ndef_get nd (d (index_p va p)))"
  shows "lightSpread va nd a p light d =
           Option.bind (lightSpread va nd a (v3s16_add p \<lparr>X = 0, Y = 0, Z = 1\<rparr>) (light - 1) (set_param1 d (index_p va p) (light - 1))) (\<lambda>d1.
           Option.bind (lightSpread va nd a (v3s16_add p \<lparr>X = 0, Y = 1, Z = 0\<rparr>) (light - 1) d1) (\<lambda>d2.
           Option.bind (lightSpread va nd a (v3s16_add p \<lparr>X = 1, Y = 0, Z = 0\<rparr>) (light - 1) d2) (\<lambda>d3.
           Option.bind (lightSpread va nd a (v3s16_sub p \<lparr>X = 0, Y = 0, Z = 1\<rparr>) (light - 1) d3) (\<lambda>d4.
           Option.bind (lightSpread va nd a (v3s16_sub p \<lparr>X = 0, Y = 1, Z = 0\<rparr>) (light - 1) d4) (\<lambda>d5.
           lightSpread va nd a (v3s16_sub p \<lparr>X = 1, Y = 0, Z = 0\<rparr>) (light - 1) d5)))))"
  using assms by (subst lightSpread.simps) (simp add: Let_def)

lemma lightSpread_returns: "\<exists>d'. lightSpread va nd a p light d = Some d'"
proof (induction "unat light" arbitrary: light p d rule: less_induct)
  case less
  show ?case
  proof (cases "light \<le> 1 \<or> \<not> contains a p \<or> light - 1 \<le> param1 (d (index_p va p))
        \<or> \<not> light_propagates (ndef_get nd (d (index_p va p)))")
    case True
    then show ?thesis using lightSpread_skip lightSpread_blocked by blast
  next
    case False
    then have w: "\<not> light \<le> 1" "contains a p" "\<not> light - 1 \<le> param1 (d (index_p va p))"
      "light_propagates (ndef_get nd (d (index_p va p)))" by auto
    have dec: "unat (light - 1) < unat light" using w(1) by (rule u8_pred_less)
    note IH = less[OF dec]
    obtain d1 where 1: "lightSpread va nd a (v3s16_add p \<lparr>X = 0, Y = 0, Z = 1\<rparr>) (light - 1) (set_param1 d (index_p va p) (light - 1)) = Some d1"
      using IH by blast
    obtain d2 where 2: "lightSpread va nd a (v3s16_add p \<lparr>X = 0, Y = 1, Z = 0\<rparr>) (light - 1) d1 = Some d2"
      using IH by blast
    obtain d3 where 3: "lightSpread va nd a (v3s16_add p \<lparr>X = 1, Y = 0, Z = 0\<rparr>) (light - 1) d2 = Some d3"
      using IH by blast
    obtain d4 where 4: "lightSpread va nd a (v3s16_sub p \<lparr>X = 0, Y = 0, Z = 1\<rparr>) (light - 1) d3 = Some d4"
      using IH by blast
    obtain d5 where 5: "lightSpread va nd a (v3s16_sub p \<lparr>X = 0, Y = 1, Z = 0\<rparr>) (light - 1) d4 = Some d5"
      using IH by blast
    obtain d6 where 6: "lightSpread va nd a (v3s16_sub p \<lparr>X = 1, Y = 0, Z = 0\<rparr>) (light - 1) d5 = Some d6"
      using IH by blast
    show ?thesis
      using w by (simp add: lightSpread_write[where light=light and a=a and p=p and d=d and va=va and nd=nd] 1 2 3 4 5 6)
  qed
qed

text \<open>
  C9. \<open>lightSpread\<close> returns for every buffer area, property table, region, start
  position, light value (any 8-bit value, so every value from 0 to 15) and buffer
  contents. No set of visited positions is kept: every recursive call carries a light
  value one smaller than its caller's, and a call with a value of at most 1 returns
  at once, so the depth of the recursion is bounded by the light value.
\<close>

theorem lightSpread_terminates: "\<exists>d'. lightSpread va nd a p light d = Some d'"
  by (rule lightSpread_returns)

section \<open>updateHeightmap\<close>

lemma heightmap_store_eq:
  "heightmap_store ymin ymax y idx hm = hm(idx := kept_or_stored ymin ymax y (hm idx))"
  by (auto simp: heightmap_store_def kept_or_stored_def fun_eq_iff)

lemma findGroundLevel_returns:
  assumes "- 32768 < ymin" "ymin \<le> ymax" "ymax \<le> 32767"
  shows "\<exists>r. findGroundLevel mg p2d ymin ymax = Some r"
proof -
  from assms have "ymin \<le> ymax + 1" by simp
  from ground_scan_result[OF assms(1) assms(3) this, of mg "X2 p2d" "Y2 p2d"]
  show ?thesis by (auto simp: findGroundLevel_def)
qed

lemma column_index_mono:
  assumes "X nmin \<le> X nmax" "Z nmin \<le> z'" "z' < z" "X nmin \<le> x'" "x' \<le> X nmax"
  shows "0 \<le> column_index nmin nmax x' z'" "column_index nmin nmax x' z' < column_index nmin nmax (X nmin) z"
proof -
  let ?w = "X nmax - X nmin + 1"
  have w: "0 < ?w" using assms(1) by simp
  have "0 \<le> (z' - Z nmin) * ?w" using assms(2) w by simp
  then show "0 \<le> column_index nmin nmax x' z'" using assms(4) by (simp add: column_index_def)
  have "(z' - Z nmin) * ?w + ?w \<le> (z - Z nmin) * ?w"
  proof -
    have "(z' - Z nmin + 1) * ?w \<le> (z - Z nmin) * ?w"
      using assms(3) w by (intro mult_right_mono) auto
    then show ?thesis by (simp add: algebra_simps)
  qed
  then show "column_index nmin nmax x' z' < column_index nmin nmax (X nmin) z"
    using assms(5) by (simp add: column_index_def)
qed

lemma heightmap_inv_step:
  assumes b: "- 32768 < Y nmin" "Y nmin \<le> Y nmax" "Y nmax \<le> 32767" "X nmin \<le> X nmax"
    and k: "X nmin \<le> k" "k \<le> X nmax" "Z nmin \<le> z"
    and inv: "heightmap_inv mg nmin nmax hm z k t"
  shows "\<exists>t'. (case t of (idx, hm') \<Rightarrow>
                 Option.bind (findGroundLevel mg \<lparr>X2 = k, Y2 = z\<rparr> (Y nmin) (Y nmax))
                   (\<lambda>y. Some (idx + 1, heightmap_store (Y nmin) (Y nmax) y idx hm'))) = Some t'
              \<and> heightmap_inv mg nmin nmax hm z (k + 1) t'"
proof -
  obtain idx hm' where t: "t = (idx, hm')" by (cases t)
  from findGroundLevel_returns[OF b(1-3)]
  obtain r where r: "findGroundLevel mg \<lparr>X2 = k, Y2 = z\<rparr> (Y nmin) (Y nmax) = Some r" by blast
  let ?t' = "(idx + 1, heightmap_store (Y nmin) (Y nmax) r idx hm')"
  from inv have idx: "idx = column_index nmin nmax k z"
    and same: "\<And>j. j \<ge> idx \<or> j < 0 \<Longrightarrow> hm' j = hm j"
    and prev: "\<And>z' x'. Z nmin \<le> z' \<Longrightarrow> X nmin \<le> x' \<Longrightarrow> x' \<le> X nmax \<Longrightarrow> z' < z \<or> (z' = z \<and> x' < k) \<Longrightarrow>
           (\<exists>r. findGroundLevel mg \<lparr>X2 = x', Y2 = z'\<rparr> (Y nmin) (Y nmax) = Some r
               \<and> hm' (column_index nmin nmax x' z')
                   = kept_or_stored (Y nmin) (Y nmax) r (hm (column_index nmin nmax x' z')))"
    by (auto simp: heightmap_inv_def t)
  have idx0: "0 \<le> idx"
  proof -
    have "0 \<le> (z - Z nmin) * (X nmax - X nmin + 1)" using k(3) b(4) by simp
    then show ?thesis using k(1) by (simp add: idx column_index_def)
  qed
  have "heightmap_inv mg nmin nmax hm z (k + 1) ?t'"
    unfolding heightmap_inv_def
  proof (intro conjI allI impI)
    show "fst ?t' = column_index nmin nmax (k + 1) z" by (simp add: idx column_index_def)
  next
    fix j assume "fst ?t' \<le> j \<or> j < 0"
    then show "snd ?t' j = hm j" using same[of j] idx0 by (auto simp: heightmap_store_eq)
  next
    fix z' x'
    assume a: "Z nmin \<le> z' \<and> X nmin \<le> x' \<and> x' \<le> X nmax \<and> (z' < z \<or> z' = z \<and> x' < k + 1)"
    show "\<exists>r. findGroundLevel mg \<lparr>X2 = x', Y2 = z'\<rparr> (Y nmin) (Y nmax) = Some r
               \<and> snd ?t' (column_index nmin nmax x' z')
                   = kept_or_stored (Y nmin) (Y nmax) r (hm (column_index nmin nmax x' z'))"
    proof (cases "z' = z \<and> x' = k")
      case True
      then show ?thesis using r same[of idx] by (simp add: heightmap_store_eq idx)
    next
      case False
      with a have before: "z' < z \<or> (z' = z \<and> x' < k)" by auto
      have ne: "column_index nmin nmax x' z' \<noteq> idx"
      proof (cases "z' < z")
        case True
        from column_index_mono(2)[OF b(4) _ True, of x'] a
        have "column_index nmin nmax x' z' < column_index nmin nmax (X nmin) z" by simp
        also have "\<dots> \<le> idx" using k(1) by (simp add: idx column_index_def)
        finally show ?thesis by simp
      next
        case False
        with before have "z' = z" "x' < k" by auto
        then show ?thesis by (simp add: idx column_index_def)
      qed
      from prev[of z' x'] a before ne show ?thesis by (auto simp: heightmap_store_eq)
    qed
  qed
  then show ?thesis by (simp add: t r)
qed

lemma heightmap_inv_next_row:
  assumes "heightmap_inv mg nmin nmax hm z (X nmax + 1) s"
  shows "heightmap_inv mg nmin nmax hm (z + 1) (X nmin) s"
  unfolding heightmap_inv_def
proof (intro conjI allI impI)
  show "fst s = column_index nmin nmax (X nmin) (z + 1)"
    using assms by (simp add: heightmap_inv_def column_index_def algebra_simps)
next
  fix j assume "fst s \<le> j \<or> j < 0"
  with assms show "snd s j = hm j" unfolding heightmap_inv_def by blast
next
  fix z' x'
  assume a: "Z nmin \<le> z' \<and> X nmin \<le> x' \<and> x' \<le> X nmax \<and> (z' < z + 1 \<or> z' = z + 1 \<and> x' < X nmin)"
  then have "Z nmin \<le> z' \<and> X nmin \<le> x' \<and> x' \<le> X nmax \<and> (z' < z \<or> z' = z \<and> x' < X nmax + 1)" by auto
  with assms show "\<exists>r. findGroundLevel mg \<lparr>X2 = x', Y2 = z'\<rparr> (Y nmin) (Y nmax) = Some r
               \<and> snd s (column_index nmin nmax x' z')
                   = kept_or_stored (Y nmin) (Y nmax) r (hm (column_index nmin nmax x' z'))"
    unfolding heightmap_inv_def by blast
qed

lemma heightmap_inv_row:
  assumes b: "- 32768 < Y nmin" "Y nmin \<le> Y nmax" "Y nmax \<le> 32767"
      "- 32768 \<le> X nmin" "X nmin \<le> X nmax" "X nmax < 32767"
    and z: "Z nmin \<le> z"
    and inv: "heightmap_inv mg nmin nmax hm z (X nmin) s"
  shows "\<exists>s'. for_s16_up (X nmin) (X nmax)
                 (\<lambda>x (idx, hm').
                     Option.bind (findGroundLevel mg \<lparr>X2 = x, Y2 = z\<rparr> (Y nmin) (Y nmax))
                       (\<lambda>y. Some (idx + 1, heightmap_store (Y nmin) (Y nmax) y idx hm'))) s = Some s'
              \<and> heightmap_inv mg nmin nmax hm (z + 1) (X nmin) s'"
proof -
  have "\<exists>s'. for_s16_up (X nmin) (X nmax)
                 (\<lambda>x (idx, hm').
                     Option.bind (findGroundLevel mg \<lparr>X2 = x, Y2 = z\<rparr> (Y nmin) (Y nmax))
                       (\<lambda>y. Some (idx + 1, heightmap_store (Y nmin) (Y nmax) y idx hm'))) s = Some s'
              \<and> heightmap_inv mg nmin nmax hm z (max (X nmin) (X nmax + 1)) s'"
    by (rule for_s16_up_rule[where P = "heightmap_inv mg nmin nmax hm z", OF b(4) b(6) inv])
       (rule heightmap_inv_step[OF b(1-3) b(5) _ _ z])
  moreover have "max (X nmin) (X nmax + 1) = X nmax + 1" using b(5) by simp
  ultimately show ?thesis using heightmap_inv_next_row by auto
qed


text \<open>
  C2 (as amended). For a region whose bounds are 16-bit values that the loop counters
  can pass without wrapping, and a generator with a heightmap, \<open>updateHeightmap\<close>
  returns, and for every column of the region the new entry is the old entry when the
  bounded scan returned the topmost scanned Y and the old entry lies above the scanned
  range, or when the scan returned the bottommost Y minus one and the old entry lies
  below the scanned range; in every other case the new entry is the scan result.
  Entries of no column of the region are unchanged.
\<close>

theorem updateHeightmap_trust:
  assumes hm: "heightmap mg = Some hm"
    and x: "- 32768 \<le> X nmin" "X nmin \<le> X nmax" "X nmax < 32767"
    and y: "- 32768 < Y nmin" "Y nmin \<le> Y nmax" "Y nmax \<le> 32767"
    and z: "- 32768 \<le> Z nmin" "Z nmin \<le> Z nmax" "Z nmax < 32767"
  shows "\<exists>hm'. updateHeightmap mg nmin nmax = Some (mg\<lparr>heightmap := Some hm'\<rparr>)
      \<and> (\<forall>x z. X nmin \<le> x \<and> x \<le> X nmax \<and> Z nmin \<le> z \<and> z \<le> Z nmax \<longrightarrow>
            (\<exists>r. findGroundLevel mg \<lparr>X2 = x, Y2 = z\<rparr> (Y nmin) (Y nmax) = Some r
               \<and> hm' (column_index nmin nmax x z)
                   = (if (r = Y nmax \<and> hm (column_index nmin nmax x z) > Y nmax)
                         \<or> (r = Y nmin - 1 \<and> hm (column_index nmin nmax x z) < Y nmin)
                      then hm (column_index nmin nmax x z) else r)))
      \<and> (\<forall>j. j < 0 \<or> j \<ge> column_index nmin nmax (X nmin) (Z nmax + 1) \<longrightarrow> hm' j = hm j)"
proof -
  let ?row = "\<lambda>z. for_s16_up (X nmin) (X nmax)
                 (\<lambda>x (idx, hm').
                     Option.bind (findGroundLevel mg \<lparr>X2 = x, Y2 = z\<rparr> (Y nmin) (Y nmax))
                       (\<lambda>y. Some (idx + 1, heightmap_store (Y nmin) (Y nmax) y idx hm')))"
  have start: "heightmap_inv mg nmin nmax hm (Z nmin) (X nmin) (0, hm)"
    by (auto simp: heightmap_inv_def column_index_def)
  have "\<exists>s'. for_s16_up (Z nmin) (Z nmax) ?row (0, hm) = Some s'
            \<and> heightmap_inv mg nmin nmax hm (max (Z nmin) (Z nmax + 1)) (X nmin) s'"
    by (rule for_s16_up_rule[where P = "\<lambda>k. heightmap_inv mg nmin nmax hm k (X nmin)", OF z(1) z(3) start])
       (rule heightmap_inv_row[OF y x])
  then obtain idx hm' where s': "for_s16_up (Z nmin) (Z nmax) ?row (0, hm) = Some (idx, hm')"
    and inv: "heightmap_inv mg nmin nmax hm (Z nmax + 1) (X nmin) (idx, hm')"
    using z(2) by (auto simp: max_def)
  have run: "updateHeightmap mg nmin nmax = Some (mg\<lparr>heightmap := Some hm'\<rparr>)"
    by (simp add: updateHeightmap_def hm s')
  have cols: "\<exists>r. findGroundLevel mg \<lparr>X2 = x, Y2 = z\<rparr> (Y nmin) (Y nmax) = Some r
               \<and> hm' (column_index nmin nmax x z)
                   = (if (r = Y nmax \<and> hm (column_index nmin nmax x z) > Y nmax)
                         \<or> (r = Y nmin - 1 \<and> hm (column_index nmin nmax x z) < Y nmin)
                      then hm (column_index nmin nmax x z) else r)"
    if "X nmin \<le> x \<and> x \<le> X nmax \<and> Z nmin \<le> z \<and> z \<le> Z nmax" for x z
  proof -
    from that have "Z nmin \<le> z \<and> X nmin \<le> x \<and> x \<le> X nmax \<and> (z < Z nmax + 1 \<or> (z = Z nmax + 1 \<and> x < X nmin))"
      by auto
    with inv show ?thesis unfolding heightmap_inv_def kept_or_stored_def snd_conv by blast
  qed
  have rest: "hm' j = hm j" if "j < 0 \<or> j \<ge> column_index nmin nmax (X nmin) (Z nmax + 1)" for j
    using inv that by (auto simp: heightmap_inv_def)
  from run cols rest show ?thesis by blast
qed

theorem updateHeightmap_trust_witness:
  "height_entry (updateHeightmap (ex_tower 30) \<lparr>X = 0, Y = 40, Z = 0\<rparr> \<lparr>X = 0, Y = 45, Z = 0\<rparr>) 0 = Some 30
   \<and> height_entry (updateHeightmap (ex_tower 50) \<lparr>X = 0, Y = 40, Z = 0\<rparr> \<lparr>X = 0, Y = 60, Z = 0\<rparr>) 0 = Some 39"
proof -
  have h: "heightmap (ex_tower 30) = Some (\<lambda>k. 30)" "heightmap (ex_tower 50) = Some (\<lambda>k. 50)"
    by (simp_all add: ex_tower_def)
  have "\<exists>hm'. updateHeightmap (ex_tower 30) \<lparr>X = 0, Y = 40, Z = 0\<rparr> \<lparr>X = 0, Y = 45, Z = 0\<rparr>
            = Some ((ex_tower 30)\<lparr>heightmap := Some hm'\<rparr>)"
    using updateHeightmap_trust[OF h(1), of "\<lparr>X = 0, Y = 40, Z = 0\<rparr>" "\<lparr>X = 0, Y = 45, Z = 0\<rparr>"] by auto
  moreover have "\<exists>hm'. updateHeightmap (ex_tower 50) \<lparr>X = 0, Y = 40, Z = 0\<rparr> \<lparr>X = 0, Y = 60, Z = 0\<rparr>
            = Some ((ex_tower 50)\<lparr>heightmap := Some hm'\<rparr>)"
    using updateHeightmap_trust[OF h(2), of "\<lparr>X = 0, Y = 40, Z = 0\<rparr>" "\<lparr>X = 0, Y = 60, Z = 0\<rparr>"] by auto
  moreover have "height_entry (updateHeightmap (ex_tower 30) \<lparr>X = 0, Y = 40, Z = 0\<rparr> \<lparr>X = 0, Y = 45, Z = 0\<rparr>) 0 = Some 30"
    by code_simp
  moreover have "height_entry (updateHeightmap (ex_tower 50) \<lparr>X = 0, Y = 40, Z = 0\<rparr> \<lparr>X = 0, Y = 60, Z = 0\<rparr>) 0 = Some 39"
    by code_simp
  ultimately show ?thesis by simp
qed

text \<open>
  The claim as stated fails: with an entry of 50, a rescan over Y 40 to 45 that finds no
  walkable node returns 39, and since 50 is not below 40 the entry becomes 39.
\<close>

theorem updateHeightmap_trust_counterexample:
  "height_entry (updateHeightmap (ex_tower 50) \<lparr>X = 0, Y = 40, Z = 0\<rparr> \<lparr>X = 0, Y = 45, Z = 0\<rparr>) 0 = Some 39
   \<and> height_entry (updateHeightmap (ex_tower 50) \<lparr>X = 0, Y = 40, Z = 0\<rparr> \<lparr>X = 0, Y = 45, Z = 0\<rparr>) 0 \<noteq> Some 50"
  by code_simp

section \<open>updateLiquid\<close>

lemma set_push_back: "set (push_back q p) = insert p (set q)"
  by (auto simp: push_back_def)

lemma push_back_extends: "\<exists>new. push_back (q0 @ new0) p = q0 @ new"
  by (simp add: push_back_def)

lemma distinct_push_back: "distinct q \<Longrightarrow> distinct (push_back q p)"
  by (simp add: push_back_def)

lemma liquid_inv_push:
  assumes "liquid_inv mg q0 a z x y q" "contains a \<lparr>X = x, Y = y, Z = z\<rparr>"
  shows "liquid_inv mg q0 a z x (y - 1)
           (if transition_at mg (Y (MaxEdge a)) \<lparr>X = x, Y = y, Z = z\<rparr> then push_back q \<lparr>X = x, Y = y, Z = z\<rparr> else q)"
proof -
  have step: "liquid_passed a z x (y - 1) = insert \<lparr>X = x, Y = y, Z = z\<rparr> (liquid_passed a z x y)"
    using assms(2) by (auto simp: liquid_passed_def contains_def v3s16_eq_iff)
  from assms(1) obtain new where q: "q = q0 @ new" by (auto simp: liquid_inv_def)
  show ?thesis
    using assms(1) push_back_extends[of q0 new "\<lparr>X = x, Y = y, Z = z\<rparr>"]
    unfolding liquid_inv_def step q[symmetric]
    by (auto simp: set_push_back distinct_push_back q)
qed

lemma liquid_column:
  assumes y: "- 32768 < Y (MinEdge a)" "Y (MaxEdge a) \<le> 32767"
    and c: "X (MinEdge a) \<le> x" "x \<le> X (MaxEdge a)" "Z (MinEdge a) \<le> z" "z \<le> Z (MaxEdge a)"
    and inv: "liquid_inv mg q0 a z x (Y (MaxEdge a)) q"
  shows "\<exists>q'. updateLiquid_column mg (MinEdge a) (MaxEdge a) z x q = Some q'
            \<and> liquid_inv mg q0 a z (x + 1) (Y (MaxEdge a)) q'"
proof -
  let ?ymax = "Y (MaxEdge a)" and ?ymin = "Y (MinEdge a)" and ?va = "m_area (vm mg)"
  let ?P = "\<lambda>k s. liquid_inv mg q0 a z x k (fst s) \<and> fst (snd s) = (k = ?ymax \<or> liquid_at mg x (k + 1) z)
                    \<and> snd (snd s) = index ?va x k z"
  have "\<exists>s'. for_s16_down ?ymax ?ymin (updateLiquid_node mg x z) (q, True, index ?va x ?ymax z) = Some s'
            \<and> ?P (min ?ymax (?ymin - 1)) s'"
  proof (rule for_s16_down_rule[where P = ?P, OF y(2) y(1)])
    show "?P ?ymax (q, True, index ?va x ?ymax z)" using inv by simp
  next
    fix k t
    assume k: "?ymin \<le> k" "k \<le> ?ymax" and P: "?P k t"
    obtain q1 w i where t: "t = (q1, w, i)" by (cases t)
    from k c have cont: "contains a \<lparr>X = x, Y = k, Z = z\<rparr>" by (simp add: contains_def)
    have tr: "transition_at mg ?ymax \<lparr>X = x, Y = k, Z = z\<rparr> \<longleftrightarrow> liquid_at mg x k z \<noteq> w"
      using P by (simp add: transition_at_def t)
    have liq: "isLiquid (ndef_get (ndef mg) (m_data (vm mg) i)) = liquid_at mg x k z"
      using P by (simp add: liquid_at_def t)
    from liquid_inv_push[OF _ cont, of mg q0 q1] P
    have "liquid_inv mg q0 a z x (k - 1)
            (if liquid_at mg x k z \<noteq> w then push_back q1 \<lparr>X = x, Y = k, Z = z\<rparr> else q1)"
      by (simp add: t tr)
    moreover have "add_y (getExtent ?va) i (- 1) = index ?va x (k - 1) z"
      using P by (simp add: t index_step_y)
    moreover have "k - 1 \<noteq> ?ymax" using k by simp
    ultimately show "\<exists>t'. updateLiquid_node mg x z k t = Some t' \<and> ?P (k - 1) t'"
      by (simp add: updateLiquid_node_def t liq Let_def)
  qed
  then obtain q' w' i' where s': "for_s16_down ?ymax ?ymin (updateLiquid_node mg x z) (q, True, index ?va x ?ymax z) = Some (q', w', i')"
    and inv': "liquid_inv mg q0 a z x (min ?ymax (?ymin - 1)) q'"
    by auto
  have "liquid_passed a z x (min ?ymax (?ymin - 1)) = liquid_passed a z (x + 1) ?ymax"
    by (auto simp: liquid_passed_def contains_def)
  with inv' have "liquid_inv mg q0 a z (x + 1) ?ymax q'" by (simp add: liquid_inv_def)
  then show ?thesis by (simp add: updateLiquid_column_def s')
qed

lemma liquid_row:
  assumes y: "- 32768 < Y (MinEdge a)" "Y (MaxEdge a) \<le> 32767"
    and x: "- 32768 \<le> X (MinEdge a)" "X (MaxEdge a) < 32767"
    and c: "Z (MinEdge a) \<le> z" "z \<le> Z (MaxEdge a)"
    and inv: "liquid_inv mg q0 a z (X (MinEdge a)) (Y (MaxEdge a)) q"
  shows "\<exists>q'. for_s16_up (X (MinEdge a)) (X (MaxEdge a)) (updateLiquid_column mg (MinEdge a) (MaxEdge a) z) q = Some q'
            \<and> liquid_inv mg q0 a (z + 1) (X (MinEdge a)) (Y (MaxEdge a)) q'"
proof -
  have "\<exists>q'. for_s16_up (X (MinEdge a)) (X (MaxEdge a)) (updateLiquid_column mg (MinEdge a) (MaxEdge a) z) q = Some q'
            \<and> liquid_inv mg q0 a z (max (X (MinEdge a)) (X (MaxEdge a) + 1)) (Y (MaxEdge a)) q'"
    by (rule for_s16_up_rule[where P = "\<lambda>k. liquid_inv mg q0 a z k (Y (MaxEdge a))", OF x inv])
       (rule liquid_column[OF y _ _ c])
  moreover have "liquid_passed a z (max (X (MinEdge a)) (X (MaxEdge a) + 1)) (Y (MaxEdge a))
      = liquid_passed a (z + 1) (X (MinEdge a)) (Y (MaxEdge a))"
    by (auto simp: liquid_passed_def contains_def)
  ultimately show ?thesis by (simp add: liquid_inv_def)
qed

lemma updateLiquid_transitions:
  assumes x: "- 32768 \<le> X nmin" "X nmax < 32767"
    and y: "- 32768 < Y nmin" "Y nmax \<le> 32767"
    and z: "- 32768 \<le> Z nmin" "Z nmax < 32767"
  shows "\<exists>q'. updateLiquid mg q nmin nmax = Some q'
      \<and> set q' = set q \<union> {p. contains \<lparr>MinEdge = nmin, MaxEdge = nmax\<rparr> p \<and> transition_at mg (Y nmax) p}
      \<and> (\<exists>new. q' = q @ new) \<and> (distinct q \<longrightarrow> distinct q')"
proof -
  let ?a = "\<lparr>MinEdge = nmin, MaxEdge = nmax\<rparr>"
  have start: "liquid_inv mg q ?a (Z (MinEdge ?a)) (X (MinEdge ?a)) (Y (MaxEdge ?a)) q"
    by (auto simp: liquid_inv_def liquid_passed_def contains_def)
  have "\<exists>q'. for_s16_up (Z (MinEdge ?a)) (Z (MaxEdge ?a))
               (\<lambda>z. for_s16_up (X (MinEdge ?a)) (X (MaxEdge ?a)) (updateLiquid_column mg (MinEdge ?a) (MaxEdge ?a) z)) q = Some q'
          \<and> liquid_inv mg q ?a (max (Z (MinEdge ?a)) (Z (MaxEdge ?a) + 1)) (X (MinEdge ?a)) (Y (MaxEdge ?a)) q'"
  proof (rule for_s16_up_rule[where P = "\<lambda>k. liquid_inv mg q ?a k (X (MinEdge ?a)) (Y (MaxEdge ?a))", OF _ _ start])
    show "- 32768 \<le> Z (MinEdge ?a)" "Z (MaxEdge ?a) < 32767" using z by simp_all
  next
    fix k t
    assume "Z (MinEdge ?a) \<le> k" "k \<le> Z (MaxEdge ?a)" "liquid_inv mg q ?a k (X (MinEdge ?a)) (Y (MaxEdge ?a)) t"
    then show "\<exists>t'. for_s16_up (X (MinEdge ?a)) (X (MaxEdge ?a)) (updateLiquid_column mg (MinEdge ?a) (MaxEdge ?a) k) t = Some t'
        \<and> liquid_inv mg q ?a (k + 1) (X (MinEdge ?a)) (Y (MaxEdge ?a)) t'"
      using x y by (intro liquid_row) simp_all
  qed
  moreover have "liquid_passed ?a (max (Z (MinEdge ?a)) (Z (MaxEdge ?a) + 1)) (X (MinEdge ?a)) (Y (MaxEdge ?a)) = {p. contains ?a p}"
    by (auto simp: liquid_passed_def contains_def)
  ultimately show ?thesis
    by (auto simp: liquid_inv_def updateLiquid_def)
qed


text \<open>
  C4. For a region whose bounds are 16-bit values that the loop counters can pass
  without wrapping, \<open>updateLiquid\<close> returns a queue that extends the given one (and has
  no duplicates if the given one had none), and for every column of the region:
  if the topmost scanned node is not liquid, the position at the topmost Y is in the
  queue; if no node of the column is liquid, the positions of the column in the queue
  are those that were there before and the one at the topmost Y, so the column adds
  one position and not one per node; and if every node of the column is liquid, the
  column adds none.
\<close>

theorem updateLiquid_parity:
  assumes x: "- 32768 \<le> X nmin" "X nmax < 32767"
    and y: "- 32768 < Y nmin" "Y nmin \<le> Y nmax" "Y nmax \<le> 32767"
    and z: "- 32768 \<le> Z nmin" "Z nmax < 32767"
  shows "\<exists>q'. updateLiquid mg q nmin nmax = Some q' \<and> (\<exists>new. q' = q @ new) \<and> (distinct q \<longrightarrow> distinct q')
     \<and> (\<forall>x z. X nmin \<le> x \<and> x \<le> X nmax \<and> Z nmin \<le> z \<and> z \<le> Z nmax \<longrightarrow>
          (\<not> liquid_at mg x (Y nmax) z \<longrightarrow> \<lparr>X = x, Y = Y nmax, Z = z\<rparr> \<in> set q')
        \<and> ((\<forall>y. Y nmin \<le> y \<and> y \<le> Y nmax \<longrightarrow> \<not> liquid_at mg x y z) \<longrightarrow>
              {p \<in> set q'. X p = x \<and> Z p = z} = insert \<lparr>X = x, Y = Y nmax, Z = z\<rparr> {p \<in> set q. X p = x \<and> Z p = z})
        \<and> ((\<forall>y. Y nmin \<le> y \<and> y \<le> Y nmax \<longrightarrow> liquid_at mg x y z) \<longrightarrow>
              {p \<in> set q'. X p = x \<and> Z p = z} = {p \<in> set q. X p = x \<and> Z p = z}))"
proof -
  let ?a = "\<lparr>MinEdge = nmin, MaxEdge = nmax\<rparr>"
  from updateLiquid_transitions[OF x y(1) y(3) z, of mg q]
  obtain q' where run: "updateLiquid mg q nmin nmax = Some q'"
    and set: "set q' = set q \<union> {p. contains ?a p \<and> transition_at mg (Y nmax) p}"
    and ext: "\<exists>new. q' = q @ new" "distinct q \<longrightarrow> distinct q'"
    by blast
  have cols: "(\<not> liquid_at mg x (Y nmax) z \<longrightarrow> \<lparr>X = x, Y = Y nmax, Z = z\<rparr> \<in> set q')
        \<and> ((\<forall>y. Y nmin \<le> y \<and> y \<le> Y nmax \<longrightarrow> \<not> liquid_at mg x y z) \<longrightarrow>
              {p \<in> set q'. X p = x \<and> Z p = z} = insert \<lparr>X = x, Y = Y nmax, Z = z\<rparr> {p \<in> set q. X p = x \<and> Z p = z})
        \<and> ((\<forall>y. Y nmin \<le> y \<and> y \<le> Y nmax \<longrightarrow> liquid_at mg x y z) \<longrightarrow>
              {p \<in> set q'. X p = x \<and> Z p = z} = {p \<in> set q. X p = x \<and> Z p = z})"
    if c: "X nmin \<le> x \<and> x \<le> X nmax \<and> Z nmin \<le> z \<and> z \<le> Z nmax" for x z
  proof (intro conjI impI)
    assume "\<not> liquid_at mg x (Y nmax) z"
    then show "\<lparr>X = x, Y = Y nmax, Z = z\<rparr> \<in> set q'"
      using c y(2) by (simp add: set contains_def transition_at_def)
  next
    assume dry: "\<forall>y. Y nmin \<le> y \<and> y \<le> Y nmax \<longrightarrow> \<not> liquid_at mg x y z"
    have "{p. contains ?a p \<and> transition_at mg (Y nmax) p \<and> X p = x \<and> Z p = z} = {\<lparr>X = x, Y = Y nmax, Z = z\<rparr>}"
    proof (intro set_eqI iffI)
      fix p assume "p \<in> {p. contains ?a p \<and> transition_at mg (Y nmax) p \<and> X p = x \<and> Z p = z}"
      then have p: "contains ?a p" "transition_at mg (Y nmax) p" "X p = x" "Z p = z" by auto
      have "Y p = Y nmax"
      proof (rule ccontr)
        assume "Y p \<noteq> Y nmax"
        with p(1) have "Y nmin \<le> Y p" "Y p + 1 \<le> Y nmax" "Y nmin \<le> Y p + 1" "Y p \<le> Y nmax" by (auto simp: contains_def)
        with dry have "\<not> liquid_at mg x (Y p) z" "\<not> liquid_at mg x (Y p + 1) z" by auto
        with p(2-4) \<open>Y p \<noteq> Y nmax\<close> show False by (simp add: transition_at_def)
      qed
      with p(3,4) show "p \<in> {\<lparr>X = x, Y = Y nmax, Z = z\<rparr>}" by (simp add: v3s16_eq_iff)
    next
      fix p assume "p \<in> {\<lparr>X = x, Y = Y nmax, Z = z\<rparr>}"
      then have "p = \<lparr>X = x, Y = Y nmax, Z = z\<rparr>" by simp
      with dry c y(2) show "p \<in> {p. contains ?a p \<and> transition_at mg (Y nmax) p \<and> X p = x \<and> Z p = z}"
        by (simp add: contains_def transition_at_def)
    qed
    then show "{p \<in> set q'. X p = x \<and> Z p = z} = insert \<lparr>X = x, Y = Y nmax, Z = z\<rparr> {p \<in> set q. X p = x \<and> Z p = z}"
      unfolding set by blast
  next
    assume wet: "\<forall>y. Y nmin \<le> y \<and> y \<le> Y nmax \<longrightarrow> liquid_at mg x y z"
    have "\<not> transition_at mg (Y nmax) p" if p: "contains ?a p" "X p = x" "Z p = z" for p
    proof (cases "Y p = Y nmax")
      case True
      with wet p show ?thesis by (simp add: transition_at_def contains_def)
    next
      case False
      with p(1) have "Y nmin \<le> Y p" "Y p + 1 \<le> Y nmax" "Y nmin \<le> Y p + 1" "Y p \<le> Y nmax" by (auto simp: contains_def)
      with wet have "liquid_at mg x (Y p) z" "liquid_at mg x (Y p + 1) z" by auto
      with p(2,3) show ?thesis by (simp add: transition_at_def)
    qed
    then show "{p \<in> set q'. X p = x \<and> Z p = z} = {p \<in> set q. X p = x \<and> Z p = z}"
      unfolding set by blast
  qed
  from run ext cols show ?thesis by blast
qed

theorem updateLiquid_parity_witness:
  "updateLiquid (ex_mapgen ex_pond None) [] \<lparr>X = 0, Y = 0, Z = 0\<rparr> \<lparr>X = 1, Y = 1, Z = 0\<rparr> = Some [\<lparr>X = 0, Y = 1, Z = 0\<rparr>]"
proof -
  have "\<exists>q'. updateLiquid (ex_mapgen ex_pond None) [] \<lparr>X = 0, Y = 0, Z = 0\<rparr> \<lparr>X = 1, Y = 1, Z = 0\<rparr> = Some q'"
    using updateLiquid_parity[of "\<lparr>X = 0, Y = 0, Z = 0\<rparr>" "\<lparr>X = 1, Y = 1, Z = 0\<rparr>" "ex_mapgen ex_pond None" "[]"]
    by auto
  moreover have "updateLiquid (ex_mapgen ex_pond None) [] \<lparr>X = 0, Y = 0, Z = 0\<rparr> \<lparr>X = 1, Y = 1, Z = 0\<rparr> = Some [\<lparr>X = 0, Y = 1, Z = 0\<rparr>]"
    by code_simp
  ultimately show ?thesis by simp
qed

section \<open>The sun pass\<close>

lemma sun_shaft_content: "getContent (sun_shaft nd em ymin y i d j) = getContent (d j)"
proof (induction nd em ymin y i d rule: sun_shaft.induct)
  case (1 nd em ymin y i d)
  show ?case
  proof (cases "y \<ge> ymin \<and> sunlight_propagates (ndef_get nd (d i))")
    case True
    with 1 have "getContent (sun_shaft nd em ymin y i d j) = getContent (set_param1 d i LIGHT_SUN j)"
      by (simp add: sun_shaft.simps[of nd em ymin y])
    then show ?thesis by (simp add: set_param1_def getContent_def)
  next
    case False
    then show ?thesis by (auto simp: sun_shaft.simps[of nd em ymin y])
  qed
qed

lemma sun_shaft_frame:
  assumes "\<forall>y'. ymin \<le> y' \<and> y' \<le> y \<longrightarrow> j \<noteq> index va x y' z"
  shows "sun_shaft nd (getExtent va) ymin y (index va x y z) d j = d j"
  using assms
proof (induction "nat (y + 1 - ymin)" arbitrary: y d)
  case 0
  then show ?case by (simp add: sun_shaft.simps[of nd _ ymin y])
next
  case (Suc n)
  then have ge: "ymin \<le> y" by simp
  show ?case
  proof (cases "sunlight_propagates (ndef_get nd (d (index va x y z)))")
    case False
    then show ?thesis by (simp add: sun_shaft.simps[of nd _ ymin y])
  next
    case True
    have n: "n = nat (y - 1 + 1 - ymin)" using Suc.hyps(2) by simp
    have "sun_shaft nd (getExtent va) ymin (y - 1) (index va x (y - 1) z) (set_param1 d (index va x y z) LIGHT_SUN) j
        = set_param1 d (index va x y z) LIGHT_SUN j"
      using Suc.prems by (intro Suc.hyps(1)[OF n]) auto
    moreover have "j \<noteq> index va x y z" using Suc.prems ge by auto
    ultimately show ?thesis
      using True ge by (simp add: sun_shaft.simps[of nd _ ymin y] index_step_y set_param1_def)
  qed
qed

lemma sun_column_content: "getContent (sun_column ignore mg a z x d j) = getContent (d j)"
  by (simp add: sun_column_def Let_def sun_shaft_content)

lemma sun_column_frame:
  assumes "\<forall>y'. Y (MinEdge a) \<le> y' \<and> y' \<le> Y (MaxEdge a) \<longrightarrow> j \<noteq> index (m_area (vm mg)) x y' z"
  shows "sun_column ignore mg a z x d j = d j"
proof -
  have "add_y (getExtent (m_area (vm mg))) (index (m_area (vm mg)) x (Y (MaxEdge a) + 1) z) (- 1)
      = index (m_area (vm mg)) x (Y (MaxEdge a)) z"
    by (simp add: index_step_y)
  with sun_shaft_frame[OF assms] show ?thesis by (simp add: sun_column_def Let_def)
qed

lemma sun_column_skipped:
  assumes "Y (MaxEdge a) < water_level mg"
    and "getContent (d (index (m_area (vm mg)) x (Y (MaxEdge a) + 1) z)) = ignore"
  shows "sun_column ignore mg a z x d = d"
  using assms by (simp add: sun_column_def Let_def)

lemma index_neq:
  assumes "contains va \<lparr>X = x, Y = y, Z = z\<rparr>" "contains va \<lparr>X = x', Y = y', Z = z'\<rparr>"
    and "x \<noteq> x' \<or> y \<noteq> y' \<or> z \<noteq> z'"
  shows "index va x y z \<noteq> index va x' y' z'"
proof
  assume "index va x y z = index va x' y' z'"
  then have "index_p va \<lparr>X = x, Y = y, Z = z\<rparr> = index_p va \<lparr>X = x', Y = y', Z = z'\<rparr>"
    by (simp add: index_p_def)
  from index_inj[OF assms(1,2) this] assms(3) show False by simp
qed

text \<open>
  What the sun pass keeps while it runs: the content of every node, and the nodes of a
  column whose shaft is skipped.
\<close>

lemma sun_pass_column_kept:
  assumes va: "contains (m_area (vm mg)) (MinEdge a)" "contains (m_area (vm mg)) (MaxEdge a)"
    and c: "X (MinEdge a) \<le> x" "x \<le> X (MaxEdge a)" "Z (MinEdge a) \<le> z" "z \<le> Z (MaxEdge a)"
    and w: "Y (MaxEdge a) < water_level mg"
    and ig: "getContent (d (index (m_area (vm mg)) x (Y (MaxEdge a) + 1) z)) = ignore"
    and y: "Y (MinEdge a) \<le> y" "y \<le> Y (MaxEdge a)"
  shows "sun_pass ignore mg a d (index (m_area (vm mg)) x y z) = d (index (m_area (vm mg)) x y z)"
proof -
  let ?va = "m_area (vm mg)"
  let ?P = "\<lambda>d'. (\<forall>j. getContent (d' j) = getContent (d j)) \<and> d' (index ?va x y z) = d (index ?va x y z)"
  have inside: "contains ?va \<lparr>X = x', Y = y', Z = z'\<rparr>"
    if "contains a \<lparr>X = x', Y = y', Z = z'\<rparr>" for x' y' z'
    using that va by (auto simp: contains_def)
  have col: "?P (sun_column ignore mg a z' x' d')"
    if P: "?P d'" and r: "X (MinEdge a) \<le> x'" "x' \<le> X (MaxEdge a)" "Z (MinEdge a) \<le> z'" "z' \<le> Z (MaxEdge a)"
    for x' z' d'
  proof (cases "x' = x \<and> z' = z")
    case True
    with P ig have "getContent (d' (index ?va x' (Y (MaxEdge a) + 1) z')) = ignore" by simp
    from sun_column_skipped[where d = d' and mg = mg and a = a and x = x' and z = z', OF w this] P
    show ?thesis by simp
  next
    case False
    have "\<forall>y'. Y (MinEdge a) \<le> y' \<and> y' \<le> Y (MaxEdge a) \<longrightarrow> index ?va x y z \<noteq> index ?va x' y' z'"
    proof (intro allI impI)
      fix y' assume y': "Y (MinEdge a) \<le> y' \<and> y' \<le> Y (MaxEdge a)"
      show "index ?va x y z \<noteq> index ?va x' y' z'"
        using False c y r y' by (intro index_neq inside) (auto simp: contains_def)
    qed
    from sun_column_frame[OF this] P show ?thesis by (simp add: sun_column_content)
  qed
  have row: "?P (for_int (X (MinEdge a)) (X (MaxEdge a)) (sun_column ignore mg a z') d')"
    if P: "?P d'" and r: "Z (MinEdge a) \<le> z'" "z' \<le> Z (MaxEdge a)" for z' d'
    using for_int_rule[where P = "\<lambda>k. ?P" and body = "sun_column ignore mg a z'" and v = "X (MinEdge a)"
        and hi = "X (MaxEdge a)" and s = d', OF P]
      col[OF _ _ _ r] by blast
  have "?P (for_int (Z (MinEdge a)) (Z (MaxEdge a))
              (\<lambda>z. for_int (X (MinEdge a)) (X (MaxEdge a)) (sun_column ignore mg a z)) d)"
    using for_int_rule[where P = "\<lambda>k. ?P" and body = "\<lambda>z. for_int (X (MinEdge a)) (X (MaxEdge a)) (sun_column ignore mg a z)"
        and v = "Z (MinEdge a)" and hi = "Z (MaxEdge a)" and s = d]
      row by blast
  then show ?thesis by (simp add: sun_pass_def)
qed

text \<open>
  C5. Take a region inside the buffer, a column of it, a water level above the
  region's top edge Y, and the unknown content in the cell one above the top edge of
  that column. Then the body of the sun pass for that column returns the buffer as it
  is, whatever the light fields are, and after the whole sun pass of \<open>calcLighting\<close>
  every node of the column is what it was: no sunlight is seeded into the column.
\<close>

theorem sun_shaft_skipped_underground:
  assumes "contains (m_area (vm mg)) nmin" and "contains (m_area (vm mg)) nmax"
    and "X nmin \<le> x" "x \<le> X nmax" "Z nmin \<le> z" "z \<le> Z nmax"
    and "Y nmax < water_level mg"
    and "getContent (m_data (vm mg) (index (m_area (vm mg)) x (Y nmax + 1) z)) = ignore"
  shows "(\<forall>d. getContent (d (index (m_area (vm mg)) x (Y nmax + 1) z)) = ignore \<longrightarrow>
            sun_column ignore mg \<lparr>MinEdge = nmin, MaxEdge = nmax\<rparr> z x d = d)
       \<and> (\<forall>y. Y nmin \<le> y \<and> y \<le> Y nmax \<longrightarrow>
            sun_pass ignore mg \<lparr>MinEdge = nmin, MaxEdge = nmax\<rparr> (m_data (vm mg)) (index (m_area (vm mg)) x y z)
              = m_data (vm mg) (index (m_area (vm mg)) x y z))"
proof (intro conjI allI impI)
  fix d assume "getContent (d (index (m_area (vm mg)) x (Y nmax + 1) z)) = ignore"
  then show "sun_column ignore mg \<lparr>MinEdge = nmin, MaxEdge = nmax\<rparr> z x d = d"
    using assms(7) by (intro sun_column_skipped) simp_all
next
  fix y assume "Y nmin \<le> y \<and> y \<le> Y nmax"
  then show "sun_pass ignore mg \<lparr>MinEdge = nmin, MaxEdge = nmax\<rparr> (m_data (vm mg)) (index (m_area (vm mg)) x y z)
              = m_data (vm mg) (index (m_area (vm mg)) x y z)"
    using assms by (intro sun_pass_column_kept) simp_all
qed

theorem sun_shaft_skipped_underground_witness:
  "sun_pass 127 ex_cave \<lparr>MinEdge = \<lparr>X = 0, Y = 0, Z = 0\<rparr>, MaxEdge = \<lparr>X = 2, Y = 0, Z = 0\<rparr>\<rparr> (m_data (vm ex_cave)) 0 = ex_node 0 0
   \<and> sun_pass 127 ex_cave \<lparr>MinEdge = \<lparr>X = 0, Y = 0, Z = 0\<rparr>, MaxEdge = \<lparr>X = 2, Y = 0, Z = 0\<rparr>\<rparr> (m_data (vm ex_cave)) 1 = ex_node 0 15"
proof -
  have a: "m_area (vm ex_cave) = ex_area" "water_level ex_cave = 5"
    by (simp_all add: ex_cave_def ex_mapgen_def)
  have i: "index ex_area 0 0 0 = 0" "index ex_area 0 1 0 = 3"
    by (simp_all add: index_def getExtent_def ex_area_def)
  have h: "contains (m_area (vm ex_cave)) \<lparr>X = 0, Y = 0, Z = 0\<rparr>" "contains (m_area (vm ex_cave)) \<lparr>X = 2, Y = 0, Z = 0\<rparr>"
      "X \<lparr>X = 0, Y = 0, Z = 0\<rparr> \<le> (0::int)" "(0::int) \<le> X \<lparr>X = 2, Y = 0, Z = 0\<rparr>"
      "Z \<lparr>X = 0, Y = 0, Z = 0\<rparr> \<le> (0::int)" "(0::int) \<le> Z \<lparr>X = 2, Y = 0, Z = 0\<rparr>"
      "Y \<lparr>X = 2, Y = 0, Z = 0\<rparr> < water_level ex_cave"
      "getContent (m_data (vm ex_cave) (index (m_area (vm ex_cave)) 0 (Y \<lparr>X = 2, Y = 0, Z = 0\<rparr> + 1) 0)) = 127"
    unfolding a by (simp_all add: contains_def ex_area_def i[unfolded ex_area_def] ex_cave_def ex_mapgen_def ex_node_def getContent_def)
  from sun_shaft_skipped_underground[OF h]
  have "sun_pass 127 ex_cave \<lparr>MinEdge = \<lparr>X = 0, Y = 0, Z = 0\<rparr>, MaxEdge = \<lparr>X = 2, Y = 0, Z = 0\<rparr>\<rparr> (m_data (vm ex_cave)) (index ex_area 0 0 0)
      = m_data (vm ex_cave) (index ex_area 0 0 0)"
    unfolding a by simp
  moreover have "m_data (vm ex_cave) 0 = ex_node 0 0"
    by (simp add: ex_cave_def ex_mapgen_def ex_air_def)
  moreover have "sun_pass 127 ex_cave \<lparr>MinEdge = \<lparr>X = 0, Y = 0, Z = 0\<rparr>, MaxEdge = \<lparr>X = 2, Y = 0, Z = 0\<rparr>\<rparr> (m_data (vm ex_cave)) 1 = ex_node 0 15"
    by code_simp
  ultimately show ?thesis by (simp add: i)
qed

section \<open>The fixed point of calcLighting\<close>

lemma grows_refl: "grows d d"
  by (simp add: grows_def)

lemma grows_trans: "grows d d1 \<Longrightarrow> grows d1 d2 \<Longrightarrow> grows d d2"
  unfolding grows_def by (metis order_trans)

lemma grows_features: "grows d d' \<Longrightarrow> ndef_get nd (d' j) = ndef_get nd (d j)"
  by (simp add: grows_def ndef_get_def getContent_def)

lemma blocked_grows: "grows d d' \<Longrightarrow> blocked va nd a d q v \<Longrightarrow> blocked va nd a d' q v"
  unfolding blocked_def using grows_features[of d d' nd "index_p va q"]
  by (auto simp: grows_def intro: order_trans)

lemma blocked_less: "blocked va nd a d q v \<Longrightarrow> v' \<le> v \<Longrightarrow> blocked va nd a d q v'"
  unfolding blocked_def by (auto simp: word_le_nat_alt unat_minus_one word_less_nat_alt unat_sub)

lemma spread_rel_refl: "spread_rel va nd a l d d"
  by (simp add: spread_rel_def grows_refl)

lemma spread_rel_trans:
  assumes "spread_rel va nd a l d d1" "spread_rel va nd a l d1 d2"
  shows "spread_rel va nd a l d d2"
  unfolding spread_rel_def
proof (intro conjI allI impI ballI)
  show g: "grows d d2" using assms grows_trans by (auto simp: spread_rel_def)
next
  fix j assume "d2 j \<noteq> d j"
  then show "j \<in> index_p va ` {p. contains a p}"
    using assms unfolding spread_rel_def by metis
next
  fix j assume "d2 j \<noteq> d j"
  then show "param1 (d2 j) < l"
    using assms unfolding spread_rel_def by metis
next
  fix p q assume p: "contains a p \<and> d2 (index_p va p) \<noteq> d (index_p va p)" and q: "q \<in> set (neighbours p)"
  show "blocked va nd a d2 q (param1 (d2 (index_p va p)))"
  proof (cases "d2 (index_p va p) = d1 (index_p va p)")
    case False
    with p q assms(2) show ?thesis unfolding spread_rel_def by blast
  next
    case True
    with p have "d1 (index_p va p) \<noteq> d (index_p va p)" by simp
    with p q assms(1) have "blocked va nd a d1 q (param1 (d1 (index_p va p)))"
      unfolding spread_rel_def by blast
    moreover have "grows d1 d2" using assms(2) by (simp add: spread_rel_def)
    ultimately show ?thesis using True blocked_grows by metis
  qed
qed


lemma step_positions:
  assumes "s16_safe a" "contains a p"
  shows "[v3s16_add p \<lparr>X = 0, Y = 0, Z = 1\<rparr>, v3s16_add p \<lparr>X = 0, Y = 1, Z = 0\<rparr>, v3s16_add p \<lparr>X = 1, Y = 0, Z = 0\<rparr>,
          v3s16_sub p \<lparr>X = 0, Y = 0, Z = 1\<rparr>, v3s16_sub p \<lparr>X = 0, Y = 1, Z = 0\<rparr>, v3s16_sub p \<lparr>X = 1, Y = 0, Z = 0\<rparr>]
         = neighbours p"
  using assms by (simp add: neighbours_def v3s16_add_def v3s16_sub_def s16_id s16_safe_def contains_def)

lemma six_calls:
  "Option.bind (lightSpread va nd a q1 l d) (\<lambda>d1.
   Option.bind (lightSpread va nd a q2 l d1) (\<lambda>d2.
   Option.bind (lightSpread va nd a q3 l d2) (\<lambda>d3.
   Option.bind (lightSpread va nd a q4 l d3) (\<lambda>d4.
   Option.bind (lightSpread va nd a q5 l d4) (\<lambda>d5.
   lightSpread va nd a q6 l d5)))))
   = spread_all va nd a [q1, q2, q3, q4, q5, q6] l d"
proof -
  have "spread_all va nd a [] l = Some"
    by (rule ext) simp
  then have "spread_all va nd a [q6] l = lightSpread va nd a q6 l"
    by (intro ext) simp
  then show ?thesis
    by (simp add: fun_eq_iff cong: Option.bind_cong)
qed

lemma spread_all_post:
  assumes "\<And>q d d'. lightSpread va nd a q l d = Some d' \<Longrightarrow> spread_rel va nd a l d d' \<and> blocked va nd a d' q l"
  shows "spread_all va nd a qs l d = Some d' \<Longrightarrow>
           spread_rel va nd a l d d' \<and> (\<forall>q \<in> set qs. blocked va nd a d' q l)"
proof (induction qs arbitrary: d)
  case Nil
  then show ?case by (simp add: spread_rel_refl)
next
  case (Cons q qs)
  from Cons.prems obtain d1 where 1: "lightSpread va nd a q l d = Some d1"
    and 2: "spread_all va nd a qs l d1 = Some d'"
    by (auto simp: bind_eq_Some_conv)
  from assms[OF 1] have r1: "spread_rel va nd a l d d1" and b1: "blocked va nd a d1 q l" by auto
  from Cons.IH[OF 2] have r2: "spread_rel va nd a l d1 d'" and b2: "\<forall>q \<in> set qs. blocked va nd a d' q l" by auto
  from r2 have "grows d1 d'" by (simp add: spread_rel_def)
  with b1 have "blocked va nd a d' q l" by (rule blocked_grows[rotated])
  with b2 spread_rel_trans[OF r1 r2] show ?case by simp
qed

lemma spread_all_returns: "\<exists>d'. spread_all va nd a qs l d = Some d'"
proof (induction qs arbitrary: d)
  case Nil
  show ?case by simp
next
  case (Cons q qs)
  obtain d1 where "lightSpread va nd a q l d = Some d1" using lightSpread_returns by blast
  with Cons[of d1] show ?case by simp
qed


lemma grows_set_param1: "param1 (d i) \<le> l \<Longrightarrow> grows d (set_param1 d i l)"
  by (simp add: grows_def set_param1_def)

lemma lightSpread_post:
  assumes safe: "s16_safe a" and sub: "\<forall>p. contains a p \<longrightarrow> contains va p"
  shows "lightSpread va nd a p l d = Some d' \<Longrightarrow> spread_rel va nd a l d d' \<and> blocked va nd a d' p l"
proof (induction "unat l" arbitrary: l p d d' rule: less_induct)
  case less
  show ?case
  proof (cases "l \<le> 1 \<or> \<not> contains a p \<or> l - 1 \<le> param1 (d (index_p va p))
        \<or> \<not> light_propagates (ndef_get nd (d (index_p va p)))")
    case True
    then have "lightSpread va nd a p l d = Some d"
      using lightSpread_skip lightSpread_blocked by blast
    with less.prems have "d' = d" by simp
    with True show ?thesis by (simp add: spread_rel_refl blocked_def)
  next
    case False
    let ?i = "index_p va p" and ?l = "l - 1"
    let ?d0 = "set_param1 d ?i ?l"
    from False have w: "\<not> l \<le> 1" "contains a p" "\<not> ?l \<le> param1 (d ?i)"
      "light_propagates (ndef_get nd (d ?i))" by auto
    have dec: "unat ?l < unat l" using w(1) by (rule u8_pred_less)
    then have lt: "?l < l" by (simp add: word_less_nat_alt)
    have "lightSpread va nd a p l d = spread_all va nd a (neighbours p) ?l ?d0"
      using w by (simp add: lightSpread_write[where light=l and a=a and p=p and d=d and va=va and nd=nd]
          six_calls step_positions[OF safe w(2)])
    with less.prems have run: "spread_all va nd a (neighbours p) ?l ?d0 = Some d'" by simp
    from spread_all_post[OF less.hyps[OF dec] run]
    have rel: "spread_rel va nd a ?l ?d0 d'" and nb: "\<forall>q \<in> set (neighbours p). blocked va nd a d' q ?l"
      by auto
    from rel have g0: "grows ?d0 d'" by (simp add: spread_rel_def)
    have g: "grows d ?d0" using w(3) by (intro grows_set_param1) simp
    have at_p: "d' ?i = ?d0 ?i"
    proof (rule ccontr)
      assume "d' ?i \<noteq> ?d0 ?i"
      with rel have "param1 (d' ?i) < ?l" by (simp add: spread_rel_def)
      moreover have "?l \<le> param1 (d' ?i)" using g0 by (auto simp: grows_def set_param1_def dest: spec[of _ ?i])
      ultimately show False by simp
    qed
    then have val: "param1 (d' ?i) = ?l" by (simp add: set_param1_def)
    have "spread_rel va nd a l d d'"
      unfolding spread_rel_def
    proof (intro conjI allI impI ballI)
      show "grows d d'" using g g0 by (rule grows_trans)
    next
      fix j assume j: "d' j \<noteq> d j"
      show "j \<in> index_p va ` {p. contains a p}"
      proof (cases "j = ?i")
        case True
        with w(2) show ?thesis by blast
      next
        case False
        then have "?d0 j = d j" by (simp add: set_param1_def)
        with j rel show ?thesis by (simp add: spread_rel_def)
      qed
    next
      fix j assume j: "d' j \<noteq> d j"
      show "param1 (d' j) < l"
      proof (cases "j = ?i")
        case True
        with val lt show ?thesis by simp
      next
        case False
        then have "?d0 j = d j" by (simp add: set_param1_def)
        with j rel have "param1 (d' j) < ?l" by (simp add: spread_rel_def)
        with lt show ?thesis by simp
      qed
    next
      fix r q assume r: "contains a r \<and> d' (index_p va r) \<noteq> d (index_p va r)" and q: "q \<in> set (neighbours r)"
      show "blocked va nd a d' q (param1 (d' (index_p va r)))"
      proof (cases "index_p va r = ?i")
        case True
        from r w(2) sub have "contains va r" "contains va p" by auto
        from index_inj[OF this True] have "r = p" .
        with q nb val show ?thesis by simp
      next
        case False
        then have "?d0 (index_p va r) = d (index_p va r)" by (simp add: set_param1_def)
        with r q rel show ?thesis unfolding spread_rel_def by auto
      qed
    qed
    moreover have "blocked va nd a d' p l" by (simp add: blocked_def val)
    ultimately show ?thesis ..
  qed
qed

lemma u8_low_nibble_le: "w AND 0x0F \<le> w" "w AND 0x0F \<le> 15" for w :: u8
  by (rule word_and_le2, rule word_and_le1)

lemma u8_low_nibble_id: "w < 16 \<Longrightarrow> w AND 0x0F = w" for w :: u8
proof -
  assume "w < 16"
  then have "w < 2 ^ 4" by simp
  then have "w AND mask 4 = w" by (rule less_mask_eq)
  moreover have "mask 4 = (0x0F :: u8)" by (simp add: mask_eq_exp_minus_1)
  ultimately show ?thesis by simp
qed

lemma spread_rel_weaken: "spread_rel va nd a l d d' \<Longrightarrow> l \<le> l' \<Longrightarrow> spread_rel va nd a l' d d'"
  unfolding spread_rel_def by (meson order_less_le_trans)

lemma u8_pred_le: "v \<noteq> 0 \<Longrightarrow> v - 1 \<le> v" for v :: u8
  by (simp add: word_le_nat_alt unat_minus_one)

lemma spread_rel_strong:
  assumes "spread_rel va nd a 15 d d'" "contains a p" "d' (index_p va p) \<noteq> d (index_p va p)"
  shows "seed_stable ignore va nd a d' p"
  unfolding seed_stable_def
proof (intro impI ballI)
  fix q
  let ?v = "param1 (d' (index_p va p))"
  assume q: "q \<in> set (neighbours p)"
    and "getContent (d' (index_p va p)) \<noteq> ignore \<and> light_propagates (ndef_get nd (d' (index_p va p)))
        \<and> ?v AND 0x0F \<noteq> 0"
  then have nz: "?v AND 0x0F \<noteq> 0" by simp
  from assms q have "?v < 15" and b: "blocked va nd a d' q ?v"
    unfolding spread_rel_def by auto
  then have m: "?v AND 0x0F = ?v" by (intro u8_low_nibble_id) (simp add: word_less_nat_alt)
  with nz have "?v - 1 \<le> ?v" by (intro u8_pred_le) simp
  from blocked_less[OF b this] show "blocked va nd a d' q ((?v AND 0x0F) - 1)"
    by (simp add: m)
qed

lemma seed_stable_grows:
  assumes "seed_stable ignore va nd a d p" "grows d d'" "d' (index_p va p) = d (index_p va p)"
  shows "seed_stable ignore va nd a d' p"
  using assms blocked_grows[OF assms(2)] unfolding seed_stable_def by simp

lemma no_emitters_grows: "grows d d' \<Longrightarrow> no_emitters ignore va nd a d \<Longrightarrow> no_emitters ignore va nd a d'"
  unfolding no_emitters_def using grows_features[of d d' nd]
  by (simp add: grows_def getContent_def)

lemma spread_node_positions:
  assumes "s16_safe a" "contains a \<lparr>X = x, Y = y, Z = z\<rparr>"
  shows "[\<lparr>X = s16 x, Y = s16 y, Z = s16 (z + 1)\<rparr>, \<lparr>X = s16 x, Y = s16 (y + 1), Z = s16 z\<rparr>,
          \<lparr>X = s16 (x + 1), Y = s16 y, Z = s16 z\<rparr>, \<lparr>X = s16 x, Y = s16 y, Z = s16 (z - 1)\<rparr>,
          \<lparr>X = s16 x, Y = s16 (y - 1), Z = s16 z\<rparr>, \<lparr>X = s16 (x - 1), Y = s16 y, Z = s16 z\<rparr>]
         = neighbours \<lparr>X = x, Y = y, Z = z\<rparr>"
  using assms by (simp add: neighbours_def s16_id s16_safe_def contains_def)

text \<open>The body of the spread pass on a region without light sources.\<close>

lemma spread_node_cases:
  assumes safe: "s16_safe a" and p: "contains a \<lparr>X = x, Y = y, Z = z\<rparr>"
    and ne: "no_emitters ignore (m_area (vm mg)) (ndef mg) a d"
  shows "spread_node ignore mg a z y x (index (m_area (vm mg)) x y z) d =
     (if getContent (d (index (m_area (vm mg)) x y z)) = ignore
          \<or> \<not> light_propagates (ndef_get (ndef mg) (d (index (m_area (vm mg)) x y z)))
          \<or> param1 (d (index (m_area (vm mg)) x y z)) AND 0x0F = 0
      then Some d
      else spread_all (m_area (vm mg)) (ndef mg) a (neighbours \<lparr>X = x, Y = y, Z = z\<rparr>)
             ((param1 (d (index (m_area (vm mg)) x y z)) AND 0x0F) - 1) d)"
proof -
  let ?i = "index (m_area (vm mg)) x y z"
  have i: "index_p (m_area (vm mg)) \<lparr>X = x, Y = y, Z = z\<rparr> = ?i" by (simp add: index_p_def)
  show ?thesis
  proof (cases "getContent (d ?i) = ignore \<or> \<not> light_propagates (ndef_get (ndef mg) (d ?i))")
    case True
    then show ?thesis by (auto simp: spread_node_def)
  next
    case False
    with ne p i have "light_source (ndef_get (ndef mg) (d ?i)) AND 0x0F = 0"
      unfolding no_emitters_def by metis
    with False show ?thesis
      by (simp add: spread_node_def Let_def six_calls spread_node_positions[OF safe p])
  qed
qed


lemma spread_node_step:
  assumes safe: "s16_safe a" and sub: "\<forall>p. contains a p \<longrightarrow> contains (m_area (vm mg)) p"
    and p: "contains a \<lparr>X = x, Y = y, Z = z\<rparr>"
    and ne: "no_emitters ignore (m_area (vm mg)) (ndef mg) a ds"
    and inv: "sweep_inv ignore (m_area (vm mg)) (ndef mg) a ds W d"
  shows "\<exists>d'. spread_node ignore mg a z y x (index (m_area (vm mg)) x y z) d = Some d'
            \<and> sweep_inv ignore (m_area (vm mg)) (ndef mg) a ds (insert \<lparr>X = x, Y = y, Z = z\<rparr> W) d'"
proof -
  let ?va = "m_area (vm mg)" and ?nd = "ndef mg" and ?p = "\<lparr>X = x, Y = y, Z = z\<rparr>"
  let ?i = "index ?va x y z"
  let ?m = "param1 (d ?i) AND 0x0F"
  have i: "index_p ?va ?p = ?i" by (simp add: index_p_def)
  from inv have rel: "spread_rel ?va ?nd a 15 ds d"
    and st: "\<And>r. r \<in> W \<Longrightarrow> contains a r \<Longrightarrow> seed_stable ignore ?va ?nd a d r"
    by (auto simp: sweep_inv_def)
  from rel have "grows ds d" by (simp add: spread_rel_def)
  from no_emitters_grows[OF this ne] have ne': "no_emitters ignore ?va ?nd a d" .
  note cases = spread_node_cases[OF safe p ne']
  show ?thesis
  proof (cases "getContent (d ?i) = ignore \<or> \<not> light_propagates (ndef_get ?nd (d ?i)) \<or> ?m = 0")
    case True
    then have "seed_stable ignore ?va ?nd a d ?p" by (auto simp: seed_stable_def i)
    with True cases inv st show ?thesis by (auto simp: sweep_inv_def)
  next
    case False
    then have run: "spread_node ignore mg a z y x ?i d = spread_all ?va ?nd a (neighbours ?p) (?m - 1) d"
      using cases by simp
    obtain d' where d': "spread_all ?va ?nd a (neighbours ?p) (?m - 1) d = Some d'"
      using spread_all_returns by blast
    from spread_all_post[OF lightSpread_post[OF safe sub] d']
    have rel': "spread_rel ?va ?nd a (?m - 1) d d'"
      and nb: "\<forall>q \<in> set (neighbours ?p). blocked ?va ?nd a d' q (?m - 1)"
      by auto
    from False have nz: "?m \<noteq> 0" by simp
    have m1: "?m - 1 \<le> ?m" using nz by (rule u8_pred_le)
    have "?m - 1 \<le> 15" using m1 u8_low_nibble_le(2)[of "param1 (d ?i)"] by (rule order_trans)
    from spread_rel_weaken[OF rel' this] have rel15: "spread_rel ?va ?nd a 15 d d'" .
    from rel' have g: "grows d d'" by (simp add: spread_rel_def)
    have same: "d' ?i = d ?i"
    proof (rule ccontr)
      assume "d' ?i \<noteq> d ?i"
      with rel' have "param1 (d' ?i) < ?m - 1" by (simp add: spread_rel_def)
      moreover have "param1 (d ?i) \<le> param1 (d' ?i)" using g by (simp add: grows_def)
      moreover have "?m \<le> param1 (d ?i)" by (rule u8_low_nibble_le)
      ultimately show False using m1 by simp
    qed
    have "seed_stable ignore ?va ?nd a d' ?p"
      using nb by (simp add: seed_stable_def i same)
    moreover have "seed_stable ignore ?va ?nd a d' r" if "r \<in> W" "contains a r" for r
    proof (cases "d' (index_p ?va r) = d (index_p ?va r)")
      case True
      from seed_stable_grows[OF st[OF that] g True] show ?thesis .
    next
      case False
      from spread_rel_strong[OF rel15 that(2) False] show ?thesis .
    qed
    moreover have "spread_rel ?va ?nd a 15 ds d'" using rel rel15 by (rule spread_rel_trans)
    ultimately show ?thesis by (auto simp: sweep_inv_def run d')
  qed
qed

lemma spread_node_stable:
  assumes safe: "s16_safe a" and p: "contains a \<lparr>X = x, Y = y, Z = z\<rparr>"
    and ne: "no_emitters ignore (m_area (vm mg)) (ndef mg) a d"
    and st: "seed_stable ignore (m_area (vm mg)) (ndef mg) a d \<lparr>X = x, Y = y, Z = z\<rparr>"
  shows "spread_node ignore mg a z y x (index (m_area (vm mg)) x y z) d = Some d"
proof -
  let ?va = "m_area (vm mg)" and ?nd = "ndef mg" and ?p = "\<lparr>X = x, Y = y, Z = z\<rparr>"
  let ?i = "index ?va x y z"
  let ?m = "param1 (d ?i) AND 0x0F"
  have i: "index_p ?va ?p = ?i" by (simp add: index_p_def)
  have all: "(\<forall>q \<in> set qs. blocked ?va ?nd a d q l) \<Longrightarrow> spread_all ?va ?nd a qs l d = Some d" for qs l
  proof (induction qs)
    case Nil
    show ?case by simp
  next
    case (Cons q qs)
    then have "blocked ?va ?nd a d q l" by simp
    then have "lightSpread ?va ?nd a q l d = Some d"
      unfolding blocked_def using lightSpread_skip lightSpread_blocked by blast
    with Cons show ?case by simp
  qed
  show ?thesis
  proof (cases "getContent (d ?i) = ignore \<or> \<not> light_propagates (ndef_get ?nd (d ?i)) \<or> ?m = 0")
    case True
    with spread_node_cases[OF safe p ne] show ?thesis by simp
  next
    case False
    with st have "\<forall>q \<in> set (neighbours ?p). blocked ?va ?nd a d q (?m - 1)"
      by (simp add: seed_stable_def i)
    from all[OF this] False spread_node_cases[OF safe p ne] show ?thesis by simp
  qed
qed


text \<open>
  A rule for the three loops of the spread pass: a property \<open>Q\<close> of the set of positions
  passed and the buffer, kept by the body at every node of the region, holds at the end
  for the whole region.
\<close>

lemma spread_pass_row:
  assumes step: "\<And>x y z W d. contains a \<lparr>X = x, Y = y, Z = z\<rparr> \<Longrightarrow> Q W d \<Longrightarrow>
            \<exists>d'. spread_node ignore mg a z y x (index (m_area (vm mg)) x y z) d = Some d' \<and> Q (insert \<lparr>X = x, Y = y, Z = z\<rparr> W) d'"
    and r: "Y (MinEdge a) \<le> y" "y \<le> Y (MaxEdge a)" "Z (MinEdge a) \<le> z" "z \<le> Z (MaxEdge a)"
    and start: "Q (swept a z y (X (MinEdge a))) d"
  shows "\<exists>d'. map_option snd
             (for_int_opt (X (MinEdge a)) (X (MaxEdge a))
                (\<lambda>x (i, d). map_option (\<lambda>d'. (i + 1, d')) (spread_node ignore mg a z y x i d))
                (index (m_area (vm mg)) (X (MinEdge a)) y z, d)) = Some d'
            \<and> Q (swept a z (y + 1) (X (MinEdge a))) d'"
proof -
  let ?va = "m_area (vm mg)"
  let ?P = "\<lambda>k s. fst s = index ?va k y z \<and> Q (swept a z y k) (snd s)"
  have "\<exists>s'. for_int_opt (X (MinEdge a)) (X (MaxEdge a))
                (\<lambda>x (i, d). map_option (\<lambda>d'. (i + 1, d')) (spread_node ignore mg a z y x i d))
                (index ?va (X (MinEdge a)) y z, d) = Some s'
            \<and> ?P (max (X (MinEdge a)) (X (MaxEdge a) + 1)) s'"
  proof (rule for_int_opt_rule[where P = ?P])
    show "?P (X (MinEdge a)) (index ?va (X (MinEdge a)) y z, d)" using start by simp
  next
    fix k t
    assume k: "X (MinEdge a) \<le> k" "k \<le> X (MaxEdge a)" and P: "?P k t"
    obtain i d1 where t: "t = (i, d1)" by (cases t)
    from k r have c: "contains a \<lparr>X = k, Y = y, Z = z\<rparr>" by (simp add: contains_def)
    from P t have "i = index ?va k y z" "Q (swept a z y k) d1" by simp_all
    with step[OF c, of "swept a z y k" d1]
    obtain d' where "spread_node ignore mg a z y k i d1 = Some d'" "Q (swept a z y (k + 1)) d'"
      by (auto simp: swept_step[OF c])
    then show "\<exists>t'. (case t of (i, d) \<Rightarrow> map_option (\<lambda>d'. (i + 1, d')) (spread_node ignore mg a z y k i d)) = Some t'
        \<and> ?P (k + 1) t'"
      using \<open>i = index ?va k y z\<close> by (simp add: t index_step_x)
  qed
  then show ?thesis by (auto simp: swept_row_end)
qed

lemma spread_pass_rule:
  assumes step: "\<And>x y z W d. contains a \<lparr>X = x, Y = y, Z = z\<rparr> \<Longrightarrow> Q W d \<Longrightarrow>
            \<exists>d'. spread_node ignore mg a z y x (index (m_area (vm mg)) x y z) d = Some d' \<and> Q (insert \<lparr>X = x, Y = y, Z = z\<rparr> W) d'"
    and start: "Q {} d"
  shows "\<exists>d'. spread_pass ignore mg a d = Some d' \<and> Q {p. contains a p} d'"
proof -
  let ?row = "\<lambda>z y d. map_option snd
             (for_int_opt (X (MinEdge a)) (X (MaxEdge a))
                (\<lambda>x (i, d). map_option (\<lambda>d'. (i + 1, d')) (spread_node ignore mg a z y x i d))
                (index (m_area (vm mg)) (X (MinEdge a)) y z, d))"
  have slab: "\<exists>d'. for_int_opt (Y (MinEdge a)) (Y (MaxEdge a)) (?row z) d1 = Some d'
            \<and> Q (swept a (z + 1) (Y (MinEdge a)) (X (MinEdge a))) d'"
    if z: "Z (MinEdge a) \<le> z" "z \<le> Z (MaxEdge a)" and Q: "Q (swept a z (Y (MinEdge a)) (X (MinEdge a))) d1" for z d1
  proof -
    have "\<exists>d'. for_int_opt (Y (MinEdge a)) (Y (MaxEdge a)) (?row z) d1 = Some d'
            \<and> Q (swept a z (max (Y (MinEdge a)) (Y (MaxEdge a) + 1)) (X (MinEdge a))) d'"
      by (rule for_int_opt_rule[where P = "\<lambda>k. Q (swept a z k (X (MinEdge a)))", OF Q])
         (rule spread_pass_row[OF step _ _ z], assumption+)
    then show ?thesis by (simp add: swept_slab_end)
  qed
  have "\<exists>d'. for_int_opt (Z (MinEdge a)) (Z (MaxEdge a)) (\<lambda>z. for_int_opt (Y (MinEdge a)) (Y (MaxEdge a)) (?row z)) d = Some d'
            \<and> Q (swept a (max (Z (MinEdge a)) (Z (MaxEdge a) + 1)) (Y (MinEdge a)) (X (MinEdge a))) d'"
  proof (rule for_int_opt_rule[where P = "\<lambda>k. Q (swept a k (Y (MinEdge a)) (X (MinEdge a)))"])
    show "Q (swept a (Z (MinEdge a)) (Y (MinEdge a)) (X (MinEdge a))) d"
      using start by (simp add: swept_start)
  qed (rule slab)
  then show ?thesis by (simp add: spread_pass_def swept_end)
qed


lemma spread_pass_stabilises:
  assumes safe: "s16_safe a" and sub: "\<forall>p. contains a p \<longrightarrow> contains (m_area (vm mg)) p"
    and ne: "no_emitters ignore (m_area (vm mg)) (ndef mg) a ds"
  shows "\<exists>d'. spread_pass ignore mg a ds = Some d'
            \<and> spread_rel (m_area (vm mg)) (ndef mg) a 15 ds d'
            \<and> (\<forall>p. contains a p \<longrightarrow> seed_stable ignore (m_area (vm mg)) (ndef mg) a d' p)"
proof -
  have "\<exists>d'. spread_pass ignore mg a ds = Some d'
            \<and> sweep_inv ignore (m_area (vm mg)) (ndef mg) a ds {p. contains a p} d'"
    by (rule spread_pass_rule[where Q = "sweep_inv ignore (m_area (vm mg)) (ndef mg) a ds"])
       (rule spread_node_step[OF safe sub _ ne], assumption+, simp add: sweep_inv_def spread_rel_refl)
  then show ?thesis by (auto simp: sweep_inv_def)
qed

lemma spread_pass_fixed:
  assumes safe: "s16_safe a"
    and ne: "no_emitters ignore (m_area (vm mg)) (ndef mg) a d"
    and st: "\<forall>p. contains a p \<longrightarrow> seed_stable ignore (m_area (vm mg)) (ndef mg) a d p"
  shows "spread_pass ignore mg a d = Some d"
proof -
  have "\<exists>d'. spread_pass ignore mg a d = Some d' \<and> d' = d"
  proof (rule spread_pass_rule[where Q = "\<lambda>W d'. d' = d"])
    fix x y z W d1
    assume c: "contains a \<lparr>X = x, Y = y, Z = z\<rparr>" and "d1 = d"
    with spread_node_stable[OF safe c ne] st
    show "\<exists>d'. spread_node ignore mg a z y x (index (m_area (vm mg)) x y z) d1 = Some d' \<and> d' = d"
      by simp
  qed simp
  then show ?thesis by simp
qed

section \<open>What the sun pass writes\<close>

lemma paint_set_param1: "paint W l (set_param1 d i l) = paint (insert i W) l d"
  by (auto simp: set_param1_def paint_def fun_eq_iff)

lemma paint_same: "\<forall>j \<in> W. param1 (d j) = l \<Longrightarrow> paint W l d = d"
  by (auto simp: paint_def fun_eq_iff)

lemma paint_features: "ndef_get nd (paint W l d j) = ndef_get nd (d j)"
  by (simp add: paint_def ndef_get_def getContent_def)

lemma set_param1_features: "ndef_get nd (set_param1 d i l j) = ndef_get nd (d j)"
  by (simp add: set_param1_def ndef_get_def getContent_def)

lemma sun_shaft_paint:
  "sun_shaft nd (getExtent va) ymin y (index va x y z) d
     = paint (index_p va ` {p. X p = x \<and> Z p = z \<and> ymin \<le> Y p \<and> Y p \<le> y
                  \<and> (\<forall>y'. Y p \<le> y' \<and> y' \<le> y \<longrightarrow> sunlight_propagates (ndef_get nd (d (index va x y' z))))})
         LIGHT_SUN d"
proof (induction "nat (y + 1 - ymin)" arbitrary: y d)
  case 0
  then have "y < ymin" by simp
  then have e: "{p. X p = x \<and> Z p = z \<and> ymin \<le> Y p \<and> Y p \<le> y
                  \<and> (\<forall>y'. Y p \<le> y' \<and> y' \<le> y \<longrightarrow> sunlight_propagates (ndef_get nd (d (index va x y' z))))} = {}"
    by auto
  show ?case unfolding e using \<open>y < ymin\<close> by (simp add: sun_shaft.simps[of nd _ ymin y] paint_empty)
next
  case (Suc n)
  then have ge: "ymin \<le> y" by simp
  let ?S = "\<lambda>y d. {p :: v3s16. X p = x \<and> Z p = z \<and> ymin \<le> Y p \<and> Y p \<le> y
                  \<and> (\<forall>y'. Y p \<le> y' \<and> y' \<le> y \<longrightarrow> sunlight_propagates (ndef_get nd (d (index va x y' z))))}"
  show ?case
  proof (cases "sunlight_propagates (ndef_get nd (d (index va x y z)))")
    case False
    then have e: "?S y d = {}" by auto
    show ?thesis unfolding e using False by (simp add: sun_shaft.simps[of nd _ ymin y] paint_empty)
  next
    case True
    let ?d1 = "set_param1 d (index va x y z) LIGHT_SUN"
    have n: "n = nat (y - 1 + 1 - ymin)" using Suc.hyps(2) by simp
    have S1: "?S (y - 1) ?d1 = ?S (y - 1) d" by (simp add: set_param1_features)
    have ins: "insert \<lparr>X = x, Y = y, Z = z\<rparr> (?S (y - 1) d) = ?S y d"
    proof (intro set_eqI iffI)
      fix p assume "p \<in> insert \<lparr>X = x, Y = y, Z = z\<rparr> (?S (y - 1) d)"
      then consider "p = \<lparr>X = x, Y = y, Z = z\<rparr>" | "p \<in> ?S (y - 1) d" by auto
      then show "p \<in> ?S y d"
      proof cases
        case 1
        with True ge show ?thesis by auto
      next
        case 2
        then have a: "X p = x" "Z p = z" "ymin \<le> Y p" "Y p \<le> y - 1"
          and b: "\<And>y'. Y p \<le> y' \<Longrightarrow> y' \<le> y - 1 \<Longrightarrow> sunlight_propagates (ndef_get nd (d (index va x y' z)))"
          by auto
        have "sunlight_propagates (ndef_get nd (d (index va x y' z)))" if "Y p \<le> y'" "y' \<le> y" for y'
          using b[of y'] True that by (cases "y' = y") auto
        with a show ?thesis by auto
      qed
    next
      fix p assume p: "p \<in> ?S y d"
      show "p \<in> insert \<lparr>X = x, Y = y, Z = z\<rparr> (?S (y - 1) d)"
      proof (cases "Y p = y")
        case True
        with p show ?thesis by (auto simp: v3s16_eq_iff)
      next
        case False
        with p show ?thesis by auto
      qed
    qed
    have "sun_shaft nd (getExtent va) ymin y (index va x y z) d
        = sun_shaft nd (getExtent va) ymin (y - 1) (index va x (y - 1) z) ?d1"
      using True ge by (simp add: sun_shaft.simps[of nd _ ymin y] index_step_y)
    also have "\<dots> = paint (index_p va ` ?S (y - 1) ?d1) LIGHT_SUN ?d1"
      by (rule Suc.hyps(1)[OF n])
    also have "\<dots> = paint (insert (index va x y z) (index_p va ` ?S (y - 1) d)) LIGHT_SUN d"
      unfolding S1 by (rule paint_set_param1)
    also have "insert (index va x y z) (index_p va ` ?S (y - 1) d) = index_p va ` ?S y d"
      unfolding ins[symmetric] by (simp add: index_p_def)
    finally show ?thesis .
  qed
qed

lemma sun_column_paint:
  assumes "X (MinEdge a) \<le> x" "x \<le> X (MaxEdge a)" "Z (MinEdge a) \<le> z" "z \<le> Z (MaxEdge a)"
  shows "sun_column ignore mg a z x d
     = paint (index_p (m_area (vm mg)) ` {p \<in> sunlit ignore mg a d. X p = x \<and> Z p = z}) LIGHT_SUN d"
proof (cases "sun_enters ignore mg a d x z")
  case False
  then have e: "{p \<in> sunlit ignore mg a d. X p = x \<and> Z p = z} = {}" by (auto simp: sunlit_def)
  have "sun_column ignore mg a z x d = d"
    using False by (auto simp: sun_column_def sun_enters_def Let_def split: if_splits)
  then show ?thesis unfolding e by (simp add: paint_empty)
next
  case True
  have e: "{p \<in> sunlit ignore mg a d. X p = x \<and> Z p = z}
      = {p. X p = x \<and> Z p = z \<and> Y (MinEdge a) \<le> Y p \<and> Y p \<le> Y (MaxEdge a)
            \<and> (\<forall>y'. Y p \<le> y' \<and> y' \<le> Y (MaxEdge a) \<longrightarrow>
                  sunlight_propagates (ndef_get (ndef mg) (d (index (m_area (vm mg)) x y' z))))}"
    using True assms by (auto simp: sunlit_def contains_def)
  have "sun_column ignore mg a z x d
      = sun_shaft (ndef mg) (getExtent (m_area (vm mg))) (Y (MinEdge a)) (Y (MaxEdge a))
          (index (m_area (vm mg)) x (Y (MaxEdge a)) z) d"
    using True by (auto simp: sun_column_def sun_enters_def Let_def index_step_y split: if_splits)
  then show ?thesis unfolding e by (simp only: sun_shaft_paint)
qed


lemma fits_sub: "fits va a \<Longrightarrow> contains a p \<Longrightarrow> contains va p"
  by (auto simp: fits_def contains_def)

lemma above_not_region:
  assumes f: "fits va a"
    and r: "X (MinEdge a) \<le> x" "x \<le> X (MaxEdge a)" "Z (MinEdge a) \<le> z" "z \<le> Z (MaxEdge a)"
  shows "index va x (Y (MaxEdge a) + 1) z \<notin> index_p va ` {p. contains a p}"
proof
  let ?q = "\<lparr>X = x, Y = Y (MaxEdge a) + 1, Z = z\<rparr>"
  assume "index va x (Y (MaxEdge a) + 1) z \<in> index_p va ` {p. contains a p}"
  then obtain p where p: "contains a p" "index_p va ?q = index_p va p" by (auto simp: index_p_def)
  have "contains va ?q" using f r by (auto simp: fits_def contains_def)
  from index_inj[OF this fits_sub[OF f p(1)] p(2)] p(1) show False by (auto simp: contains_def)
qed

lemma sunlit_cong:
  assumes "\<forall>j. param0 (d' j) = param0 (d j)"
    and "\<forall>x z. X (MinEdge a) \<le> x \<and> x \<le> X (MaxEdge a) \<and> Z (MinEdge a) \<le> z \<and> z \<le> Z (MaxEdge a) \<longrightarrow>
           d' (index (m_area (vm mg)) x (Y (MaxEdge a) + 1) z) = d (index (m_area (vm mg)) x (Y (MaxEdge a) + 1) z)"
  shows "sunlit ignore mg a d' = sunlit ignore mg a d"
proof -
  have f: "ndef_get (ndef mg) (d' j) = ndef_get (ndef mg) (d j)" for j
    using assms(1) by (simp add: ndef_get_def getContent_def)
  have e: "sun_enters ignore mg a d' (X p) (Z p) = sun_enters ignore mg a d (X p) (Z p)" if "contains a p" for p
    using that assms(2) by (simp add: sun_enters_def contains_def)
  show ?thesis unfolding sunlit_def using e by (auto simp: f)
qed

lemma sunlit_frame:
  assumes f: "fits (m_area (vm mg)) a"
    and same: "\<forall>j. param0 (d' j) = param0 (d j)"
    and frame: "\<forall>j. d' j \<noteq> d j \<longrightarrow> j \<in> index_p (m_area (vm mg)) ` {p. contains a p}"
  shows "sunlit ignore mg a d' = sunlit ignore mg a d"
proof (rule sunlit_cong[OF same], intro allI impI)
  fix x z
  assume "X (MinEdge a) \<le> x \<and> x \<le> X (MaxEdge a) \<and> Z (MinEdge a) \<le> z \<and> z \<le> Z (MaxEdge a)"
  then have "index (m_area (vm mg)) x (Y (MaxEdge a) + 1) z \<notin> index_p (m_area (vm mg)) ` {p. contains a p}"
    by (intro above_not_region[OF f]) simp_all
  with frame show "d' (index (m_area (vm mg)) x (Y (MaxEdge a) + 1) z) = d (index (m_area (vm mg)) x (Y (MaxEdge a) + 1) z)"
    by blast
qed

lemma sunlit_region: "sunlit ignore mg a d \<subseteq> {p. contains a p}"
  by (auto simp: sunlit_def)

lemma sun_pass_paint:
  assumes f: "fits (m_area (vm mg)) a"
  shows "sun_pass ignore mg a d = paint (index_p (m_area (vm mg)) ` sunlit ignore mg a d) LIGHT_SUN d"
proof -
  let ?va = "m_area (vm mg)" and ?S = "sunlit ignore mg a d"
  let ?P = "\<lambda>z k d'. d' = paint (index_p ?va ` (?S \<inter> cols_done a z k)) LIGHT_SUN d"
  have col: "?P z (k + 1) (sun_column ignore mg a z k d')"
    if r: "X (MinEdge a) \<le> k" "k \<le> X (MaxEdge a)" "Z (MinEdge a) \<le> z" "z \<le> Z (MaxEdge a)" and P: "?P z k d'"
    for z k d'
  proof -
    have "sunlit ignore mg a d' = ?S"
      unfolding P by (rule sunlit_frame[OF f]) (auto simp: paint_def sunlit_def)
    then have "sun_column ignore mg a z k d'
        = paint (index_p ?va ` {p \<in> ?S. X p = k \<and> Z p = z}) LIGHT_SUN d'"
      by (simp add: sun_column_paint[OF r])
    also have "\<dots> = paint (index_p ?va ` {p \<in> ?S. X p = k \<and> Z p = z} \<union> index_p ?va ` (?S \<inter> cols_done a z k)) LIGHT_SUN d"
      unfolding P by (rule paint_paint)
    also have "index_p ?va ` {p \<in> ?S. X p = k \<and> Z p = z} \<union> index_p ?va ` (?S \<inter> cols_done a z k)
        = index_p ?va ` (?S \<inter> cols_done a z (k + 1))"
      unfolding image_Un[symmetric]
      by (rule arg_cong[where f = "\<lambda>W. index_p ?va ` W"]) (auto simp: cols_done_def sunlit_def)
    finally show ?thesis .
  qed
  have row: "?P (z + 1) (X (MinEdge a)) (for_int (X (MinEdge a)) (X (MaxEdge a)) (sun_column ignore mg a z) d')"
    if r: "Z (MinEdge a) \<le> z" "z \<le> Z (MaxEdge a)" and P: "?P z (X (MinEdge a)) d'" for z d'
  proof -
    have "?P z (max (X (MinEdge a)) (X (MaxEdge a) + 1)) (for_int (X (MinEdge a)) (X (MaxEdge a)) (sun_column ignore mg a z) d')"
      by (rule for_int_rule[where P = "?P z", OF P]) (rule col[OF _ _ r])
    moreover have "cols_done a z (max (X (MinEdge a)) (X (MaxEdge a) + 1)) = cols_done a (z + 1) (X (MinEdge a))"
      by (auto simp: cols_done_def contains_def)
    ultimately show ?thesis by simp
  qed
  have "?P (max (Z (MinEdge a)) (Z (MaxEdge a) + 1)) (X (MinEdge a))
          (for_int (Z (MinEdge a)) (Z (MaxEdge a)) (\<lambda>z. for_int (X (MinEdge a)) (X (MaxEdge a)) (sun_column ignore mg a z)) d)"
  proof (rule for_int_rule[where P = "\<lambda>k. ?P k (X (MinEdge a))"])
    have "cols_done a (Z (MinEdge a)) (X (MinEdge a)) = {}" by (auto simp: cols_done_def contains_def)
    then show "?P (Z (MinEdge a)) (X (MinEdge a)) d" by (simp add: paint_empty)
  qed (rule row)
  moreover have "?S \<inter> cols_done a (max (Z (MinEdge a)) (Z (MaxEdge a) + 1)) (X (MinEdge a)) = ?S"
    by (auto simp: cols_done_def sunlit_def contains_def)
  ultimately show ?thesis by (simp add: sun_pass_def)
qed


lemma sunlit_mg_cong:
  assumes "water_level mg' = water_level mg" "m_area (vm mg') = m_area (vm mg)" "ndef mg' = ndef mg"
  shows "sunlit ignore mg' a d = sunlit ignore mg a d"
  by (simp add: sunlit_def sun_enters_def assms)

lemma no_emitters_content:
  "\<forall>j. param0 (d' j) = param0 (d j) \<Longrightarrow> no_emitters ignore va nd a d \<Longrightarrow> no_emitters ignore va nd a d'"
  by (simp add: no_emitters_def ndef_get_def getContent_def)

text \<open>
  C3 (as amended). Take a region whose coordinates, and those of the positions next to
  it, are 16-bit values, which lies inside the buffer together with the row of cells
  above its top edge, and a buffer in which no node of the region that is of known
  content and propagates light is a light source (the low four bits of its emission
  are 0). Then \<open>calcLighting\<close> returns, and a second run on the result returns the
  same generator: no node changes.
\<close>

theorem calcLighting_fixed_point:
  assumes "- 32768 < X nmin" "X nmax < 32767" "- 32768 < Y nmin" "Y nmax < 32767"
      "- 32768 < Z nmin" "Z nmax < 32767"
    and "contains (m_area (vm mg)) nmin" "contains (m_area (vm mg)) nmax"
      "Y nmax + 1 \<le> Y (MaxEdge (m_area (vm mg)))"
    and "\<forall>p. contains \<lparr>MinEdge = nmin, MaxEdge = nmax\<rparr> p
              \<and> getContent (m_data (vm mg) (index_p (m_area (vm mg)) p)) \<noteq> ignore
              \<and> light_propagates (ndef_get (ndef mg) (m_data (vm mg) (index_p (m_area (vm mg)) p)))
            \<longrightarrow> light_source (ndef_get (ndef mg) (m_data (vm mg) (index_p (m_area (vm mg)) p))) AND 0x0F = 0"
  shows "\<exists>mg1. calcLighting ignore mg nmin nmax = Some mg1 \<and> calcLighting ignore mg1 nmin nmax = Some mg1"
proof -
  let ?a = "\<lparr>MinEdge = nmin, MaxEdge = nmax\<rparr>" and ?va = "m_area (vm mg)" and ?nd = "ndef mg"
  let ?d0 = "m_data (vm mg)"
  let ?S = "sunlit ignore mg ?a ?d0"
  let ?ds = "sun_pass ignore mg ?a ?d0"
  have safe: "s16_safe ?a" using assms(1-6) by (simp add: s16_safe_def)
  have f: "fits ?va ?a" using assms(7-9) by (simp add: fits_def)
  have sub: "\<forall>p. contains ?a p \<longrightarrow> contains ?va p" using fits_sub[OF f] by blast
  have ne0: "no_emitters ignore ?va ?nd ?a ?d0" using assms(10) by (simp add: no_emitters_def)
  have ds: "?ds = paint (index_p ?va ` ?S) LIGHT_SUN ?d0" by (rule sun_pass_paint[OF f])
  have c_s: "\<forall>j. param0 (?ds j) = param0 (?d0 j)" by (simp add: ds paint_def)
  from no_emitters_content[OF c_s ne0] have ne_s: "no_emitters ignore ?va ?nd ?a ?ds" .
  from spread_pass_stabilises[OF safe sub ne_s]
  obtain d2 where run: "spread_pass ignore mg ?a ?ds = Some d2"
    and rel: "spread_rel ?va ?nd ?a 15 ?ds d2"
    and st: "\<forall>p. contains ?a p \<longrightarrow> seed_stable ignore ?va ?nd ?a d2 p"
    by blast
  let ?mg1 = "mg\<lparr>vm := (vm mg)\<lparr>m_data := d2\<rparr>\<rparr>"
  have run1: "calcLighting ignore mg nmin nmax = Some ?mg1"
    by (simp add: calcLighting_def run)
  from rel have g: "grows ?ds d2"
    and frame: "\<forall>j. d2 j \<noteq> ?ds j \<longrightarrow> j \<in> index_p ?va ` {p. contains ?a p}"
    and small: "\<forall>j. d2 j \<noteq> ?ds j \<longrightarrow> param1 (d2 j) < 15"
    by (auto simp: spread_rel_def)
  from g have c_2: "\<forall>j. param0 (d2 j) = param0 (?ds j)" by (simp add: grows_def)
  have ne2: "no_emitters ignore ?va ?nd ?a d2" by (rule no_emitters_content[OF c_2 ne_s])
  have "sunlit ignore mg ?a d2 = sunlit ignore mg ?a ?ds" by (rule sunlit_frame[OF f c_2 frame])
  also have "\<dots> = ?S"
  proof (rule sunlit_frame[OF f c_s], intro allI impI)
    fix j assume "?ds j \<noteq> ?d0 j"
    then have "j \<in> index_p ?va ` ?S" unfolding ds by (auto simp: paint_def split: if_splits)
    then show "j \<in> index_p ?va ` {p. contains ?a p}" using sunlit_region[of ignore mg ?a ?d0] by blast
  qed
  finally have "sunlit ignore mg ?a d2 = ?S" .
  moreover have "sunlit ignore ?mg1 ?a d2 = sunlit ignore mg ?a d2"
    by (rule sunlit_mg_cong) simp_all
  ultimately have S2: "sunlit ignore ?mg1 ?a d2 = ?S" by simp
  have lit: "\<forall>j \<in> index_p ?va ` ?S. param1 (d2 j) = LIGHT_SUN"
  proof
    fix j assume j: "j \<in> index_p ?va ` ?S"
    then have s: "param1 (?ds j) = 15" by (simp add: ds paint_def LIGHT_SUN_def)
    have "d2 j = ?ds j"
    proof (rule ccontr)
      assume "d2 j \<noteq> ?ds j"
      with small have "param1 (d2 j) < 15" by simp
      moreover from g have "param1 (?ds j) \<le> param1 (d2 j)" by (simp add: grows_def)
      ultimately show False using s by simp
    qed
    with s show "param1 (d2 j) = LIGHT_SUN" by (simp add: LIGHT_SUN_def)
  qed
  have f1: "fits (m_area (vm ?mg1)) ?a" using f by simp
  have "sun_pass ignore ?mg1 ?a d2 = paint (index_p ?va ` ?S) LIGHT_SUN d2"
    using sun_pass_paint[OF f1, of ignore d2] S2 by simp
  also have "\<dots> = d2" by (rule paint_same[OF lit])
  finally have sun2: "sun_pass ignore ?mg1 ?a d2 = d2" .
  have "spread_pass ignore ?mg1 ?a d2 = Some d2"
    using ne2 st by (intro spread_pass_fixed[OF safe]) simp_all
  with sun2 have "calcLighting ignore ?mg1 nmin nmax = Some ?mg1"
    by (simp add: calcLighting_def)
  with run1 show ?thesis by blast
qed

theorem calcLighting_fixed_point_witness:
  "calcLighting_twice 127 (ex_mapgen ex_sky None) \<lparr>X = 0, Y = 0, Z = 0\<rparr> \<lparr>X = 2, Y = 0, Z = 0\<rparr>
     = calcLighting 127 (ex_mapgen ex_sky None) \<lparr>X = 0, Y = 0, Z = 0\<rparr> \<lparr>X = 2, Y = 0, Z = 0\<rparr>
   \<and> light_at (calcLighting 127 (ex_mapgen ex_sky None) \<lparr>X = 0, Y = 0, Z = 0\<rparr> \<lparr>X = 2, Y = 0, Z = 0\<rparr>) \<lparr>X = 0, Y = 0, Z = 0\<rparr> = Some 13"
proof -
  let ?mg = "ex_mapgen ex_sky None"
  have air: "ex_sky j = ex_node 0 0 \<or> ex_sky j = ex_node 0 15" for j
    by (simp add: ex_sky_def ex_air_def)
  have src: "light_source (ndef_get (ndef ?mg) (m_data (vm ?mg) j)) AND 0x0F = 0" for j
    using air[of j] by (auto simp: ex_mapgen_def ndef_get_def getContent_def ex_node_def ex_ndef_def)
  have "\<exists>mg1. calcLighting 127 ?mg \<lparr>X = 0, Y = 0, Z = 0\<rparr> \<lparr>X = 2, Y = 0, Z = 0\<rparr> = Some mg1
          \<and> calcLighting 127 mg1 \<lparr>X = 0, Y = 0, Z = 0\<rparr> \<lparr>X = 2, Y = 0, Z = 0\<rparr> = Some mg1"
    by (rule calcLighting_fixed_point) (simp_all add: src, simp_all add: ex_mapgen_def ex_area_def contains_def)
  then have "calcLighting_twice 127 ?mg \<lparr>X = 0, Y = 0, Z = 0\<rparr> \<lparr>X = 2, Y = 0, Z = 0\<rparr>
     = calcLighting 127 ?mg \<lparr>X = 0, Y = 0, Z = 0\<rparr> \<lparr>X = 2, Y = 0, Z = 0\<rparr>"
    by (auto simp: calcLighting_twice_def)
  moreover have "light_at (calcLighting 127 ?mg \<lparr>X = 0, Y = 0, Z = 0\<rparr> \<lparr>X = 2, Y = 0, Z = 0\<rparr>) \<lparr>X = 0, Y = 0, Z = 0\<rparr> = Some 13"
    by code_simp
  ultimately show ?thesis by simp
qed

text \<open>
  The claim as stated fails on the row \<open>ex_lamp\<close>: the first run leaves the third node
  at light 1, and a second run raises it to 3. In the first run the light 4 held by the
  lamp stops the spread from the first node, and the lamp is then set to its emission 3;
  in the second run the spread from the first node passes the lamp.
\<close>

theorem calcLighting_fixed_point_counterexample:
  "light_at (calcLighting 127 (ex_mapgen ex_lamp None) \<lparr>X = 0, Y = 0, Z = 0\<rparr> \<lparr>X = 2, Y = 0, Z = 0\<rparr>) \<lparr>X = 2, Y = 0, Z = 0\<rparr> = Some 1
   \<and> light_at (calcLighting_twice 127 (ex_mapgen ex_lamp None) \<lparr>X = 0, Y = 0, Z = 0\<rparr> \<lparr>X = 2, Y = 0, Z = 0\<rparr>) \<lparr>X = 2, Y = 0, Z = 0\<rparr> = Some 3"
  by code_simp


section \<open>The first propagation step of calcLighting\<close>

text \<open>
  C1. The claim says that the first neighbour reached from a node holding light \<open>L\<close>
  receives \<open>L - 1\<close>. On the row \<open>ex_glow\<close>, whose first node holds light 10, the run
  leaves that node at 10, writes 8 into its neighbour and 7 into the node after it:
  \<open>calcLighting\<close> hands \<open>light - 1\<close> to \<open>lightSpread\<close>, which subtracts one again
  before it writes, while the recursive calls inside \<open>lightSpread\<close> hand on the value
  just written, so that from there on each node receives one less than the node before.
  Likewise the lamp of \<open>ex_torch\<close>, of emission 3, is set to 3 and its neighbour to 1.
\<close>

theorem calcLighting_first_neighbour:
  "light_at (calcLighting 127 (ex_mapgen ex_glow None) \<lparr>X = 0, Y = 0, Z = 0\<rparr> \<lparr>X = 2, Y = 0, Z = 0\<rparr>) \<lparr>X = 0, Y = 0, Z = 0\<rparr> = Some 10
   \<and> light_at (calcLighting 127 (ex_mapgen ex_glow None) \<lparr>X = 0, Y = 0, Z = 0\<rparr> \<lparr>X = 2, Y = 0, Z = 0\<rparr>) \<lparr>X = 1, Y = 0, Z = 0\<rparr> = Some 8
   \<and> light_at (calcLighting 127 (ex_mapgen ex_glow None) \<lparr>X = 0, Y = 0, Z = 0\<rparr> \<lparr>X = 2, Y = 0, Z = 0\<rparr>) \<lparr>X = 2, Y = 0, Z = 0\<rparr> = Some 7
   \<and> light_at (calcLighting 127 (ex_mapgen ex_torch None) \<lparr>X = 0, Y = 0, Z = 0\<rparr> \<lparr>X = 2, Y = 0, Z = 0\<rparr>) \<lparr>X = 0, Y = 0, Z = 0\<rparr> = Some 3
   \<and> light_at (calcLighting 127 (ex_mapgen ex_torch None) \<lparr>X = 0, Y = 0, Z = 0\<rparr> \<lparr>X = 2, Y = 0, Z = 0\<rparr>) \<lparr>X = 1, Y = 0, Z = 0\<rparr> = Some 1"
  by code_simp

section \<open>Properties of the element registry\<close>

subsection \<open>Lookup by name\<close>

text \<open>
  \<open>getByName\<close> returns an element exactly when it stands in the first occupied slot
  whose name compares equal to the name asked for, and nothing exactly when no occupied
  slot has such a name. Empty slots are passed over.
\<close>

lemma getByName_None_iff:
  "getByName es nm = None \<longleftrightarrow> (\<forall>e. Some e \<in> set es \<longrightarrow> c_str (name e) \<noteq> c_str nm)"
  by (induction es) (auto split: option.splits)

lemma getByName_Some_iff:
  "getByName es nm = Some e \<longleftrightarrow>
     (\<exists>i < length es. es ! i = Some e \<and> c_str (name e) = c_str nm
        \<and> (\<forall>j < i. \<forall>e'. es ! j = Some e' \<longrightarrow> c_str (name e') \<noteq> c_str nm))"
proof (induction es)
  case Nil
  show ?case by simp
next
  case (Cons s es)
  let ?first = "\<lambda>es i. es ! i = Some e \<and> c_str (name e) = c_str nm
        \<and> (\<forall>j < i. \<forall>e'. es ! j = Some e' \<longrightarrow> c_str (name e') \<noteq> c_str nm)"
  show ?case
  proof (cases "\<exists>h. s = Some h \<and> c_str (name h) = c_str nm")
    case True
    then obtain h where h: "s = Some h" "c_str (name h) = c_str nm" by blast
    have "(\<exists>i < length (s # es). ?first (s # es) i) \<longleftrightarrow> h = e"
    proof
      assume "\<exists>i < length (s # es). ?first (s # es) i"
      then obtain i where i: "i < length (s # es)" "?first (s # es) i" by blast
      have "i = 0"
      proof (rule ccontr)
        assume "i \<noteq> 0"
        then have "0 < i" by simp
        with i(2) h show False by auto
      qed
      with i(2) h show "h = e" by simp
    next
      assume "h = e"
      with h have "?first (s # es) 0" by simp
      then show "\<exists>i < length (s # es). ?first (s # es) i" by (intro exI[of _ 0]) simp
    qed
    with h show ?thesis by simp
  next
    case False
    then have skip: "getByName (s # es) nm = getByName es nm"
      by (cases s) auto
    have "(\<exists>i < length (s # es). ?first (s # es) i) \<longleftrightarrow> (\<exists>i < length es. ?first es i)"
    proof
      assume "\<exists>i < length (s # es). ?first (s # es) i"
      then obtain i where i: "i < length (s # es)" "?first (s # es) i" by blast
      from i(2) False have "i \<noteq> 0" by (cases "i = 0") auto
      then obtain k where k: "i = Suc k" by (cases i) auto
      have "?first es k"
      proof (intro conjI allI impI)
        show "es ! k = Some e" "c_str (name e) = c_str nm" using i(2) k by simp_all
      next
        fix j e' assume "j < k" "es ! j = Some e'"
        then have "Suc j < i" "(s # es) ! Suc j = Some e'" using k by simp_all
        with i(2) show "c_str (name e') \<noteq> c_str nm" by blast
      qed
      with i(1) k show "\<exists>i < length es. ?first es i" by auto
    next
      assume "\<exists>i < length es. ?first es i"
      then obtain k where k: "k < length es" "?first es k" by blast
      have "?first (s # es) (Suc k)"
      proof (intro conjI allI impI)
        show "(s # es) ! Suc k = Some e" "c_str (name e) = c_str nm" using k(2) by simp_all
      next
        fix j e' assume j: "j < Suc k" "(s # es) ! j = Some e'"
        show "c_str (name e') \<noteq> c_str nm"
        proof (cases j)
          case 0
          with j(2) False show ?thesis by auto
        next
          case (Suc j')
          with j k(2) show ?thesis by auto
        qed
      qed
      with k(1) show "\<exists>i < length (s # es). ?first (s # es) i" by (intro exI[of _ "Suc k"]) simp
    qed
    with skip Cons.IH show ?thesis by simp
  qed
qed

text \<open>
  C7. Starting from an empty registry, adding A, B and C gives them the ids 0, 1 and 2;
  removing id 1 returns B and empties slot 1; the next add, of D, takes slot 1 and
  returns id 1; and looking up A's name afterwards still returns A, stored with id 0
  in slot 0, whatever the names of the other elements are. The capacity limit must
  allow three elements. The lookup goes by name: on the table with slot 1 empty it
  returns A for a name equal to A's, else C for a name equal to C's, else nothing, and
  on the final table A, else D, else C, else nothing, so B is no longer found by a
  name that only B had; and on every table it returns the element of the first
  occupied slot whose name is equal to the name asked for, and nothing when there is
  no such slot.
\<close>

theorem registry_slot_reuse:
  assumes "3 \<le> limit"
  shows "(let (ia, s1) = add limit [] A;
              (ib, s2) = add limit s1 B;
              (ic, s3) = add limit s2 C;
              (old, s4) = remove s3 1;
              (idd, s5) = add limit s4 D
          in ia = 0 \<and> ib = 1 \<and> ic = 2 \<and> old = Some (B\<lparr>id_elem := 1\<rparr>) \<and> idd = 1
             \<and> s5 = [Some (A\<lparr>id_elem := 0\<rparr>), Some (D\<lparr>id_elem := 1\<rparr>), Some (C\<lparr>id_elem := 2\<rparr>)]
             \<and> get s5 1 = Some (D\<lparr>id_elem := 1\<rparr>)
             \<and> getByName s5 (name A) = Some (A\<lparr>id_elem := 0\<rparr>)
             \<and> get s5 0 = Some (A\<lparr>id_elem := 0\<rparr>)
             \<and> (\<forall>nm. getByName s4 nm =
                    (if c_str (name A) = c_str nm then Some (A\<lparr>id_elem := 0\<rparr>)
                     else if c_str (name C) = c_str nm then Some (C\<lparr>id_elem := 2\<rparr>)
                     else None))
             \<and> (\<forall>nm. getByName s5 nm =
                    (if c_str (name A) = c_str nm then Some (A\<lparr>id_elem := 0\<rparr>)
                     else if c_str (name D) = c_str nm then Some (D\<lparr>id_elem := 1\<rparr>)
                     else if c_str (name C) = c_str nm then Some (C\<lparr>id_elem := 2\<rparr>)
                     else None)))
       \<and> (\<forall>es nm e. getByName es nm = Some e \<longleftrightarrow>
             (\<exists>i < length es. es ! i = Some e \<and> c_str (name e) = c_str nm
                \<and> (\<forall>j < i. \<forall>e'. es ! j = Some e' \<longrightarrow> c_str (name e') \<noteq> c_str nm)))
       \<and> (\<forall>es nm. getByName es nm = None \<longleftrightarrow> (\<forall>e. Some e \<in> set es \<longrightarrow> c_str (name e) \<noteq> c_str nm))"
proof (intro conjI)
  show "(let (ia, s1) = add limit [] A;
              (ib, s2) = add limit s1 B;
              (ic, s3) = add limit s2 C;
              (old, s4) = remove s3 1;
              (idd, s5) = add limit s4 D
          in ia = 0 \<and> ib = 1 \<and> ic = 2 \<and> old = Some (B\<lparr>id_elem := 1\<rparr>) \<and> idd = 1
             \<and> s5 = [Some (A\<lparr>id_elem := 0\<rparr>), Some (D\<lparr>id_elem := 1\<rparr>), Some (C\<lparr>id_elem := 2\<rparr>)]
             \<and> get s5 1 = Some (D\<lparr>id_elem := 1\<rparr>)
             \<and> getByName s5 (name A) = Some (A\<lparr>id_elem := 0\<rparr>)
             \<and> get s5 0 = Some (A\<lparr>id_elem := 0\<rparr>)
             \<and> (\<forall>nm. getByName s4 nm =
                    (if c_str (name A) = c_str nm then Some (A\<lparr>id_elem := 0\<rparr>)
                     else if c_str (name C) = c_str nm then Some (C\<lparr>id_elem := 2\<rparr>)
                     else None))
             \<and> (\<forall>nm. getByName s5 nm =
                    (if c_str (name A) = c_str nm then Some (A\<lparr>id_elem := 0\<rparr>)
                     else if c_str (name D) = c_str nm then Some (D\<lparr>id_elem := 1\<rparr>)
                     else if c_str (name C) = c_str nm then Some (C\<lparr>id_elem := 2\<rparr>)
                     else None)))"
    using assms by (simp add: add_def remove_def update_def get_def)
next
  show "\<forall>es nm e. getByName es nm = Some e \<longleftrightarrow>
             (\<exists>i < length es. es ! i = Some e \<and> c_str (name e) = c_str nm
                \<and> (\<forall>j < i. \<forall>e'. es ! j = Some e' \<longrightarrow> c_str (name e') \<noteq> c_str nm))"
    using getByName_Some_iff by blast
next
  show "\<forall>es nm. getByName es nm = None \<longleftrightarrow> (\<forall>e. Some e \<in> set es \<longrightarrow> c_str (name e) \<noteq> c_str nm)"
    using getByName_None_iff by blast
qed

text \<open>
  A run in which D carries A's name: the name ''a'' finds A in slot 0 and not D, the
  name ''c'' finds C in slot 2, and the name ''b'' of the removed element finds nothing.
\<close>

theorem registry_slot_reuse_witness:
  "(let (ia, s1) = add 3 [] \<lparr>id_elem = 9, name = ''a''\<rparr>;
              (ib, s2) = add 3 s1 \<lparr>id_elem = 9, name = ''b''\<rparr>;
              (ic, s3) = add 3 s2 \<lparr>id_elem = 9, name = ''c''\<rparr>;
              (old, s4) = remove s3 1;
              (idd, s5) = add 3 s4 \<lparr>id_elem = 9, name = ''a''\<rparr>
          in ia = 0 \<and> ib = 1 \<and> ic = 2 \<and> idd = 1
             \<and> getByName s3 ''b'' = Some \<lparr>id_elem = 1, name = ''b''\<rparr>
             \<and> getByName s5 ''a'' = Some \<lparr>id_elem = 0, name = ''a''\<rparr>
             \<and> getByName s5 ''c'' = Some \<lparr>id_elem = 2, name = ''c''\<rparr>
             \<and> getByName s5 ''b'' = None
             \<and> getByName s4 ''c'' = Some \<lparr>id_elem = 2, name = ''c''\<rparr>)"
proof -
  have limit: "(3::nat) \<le> 3" by simp
  note run = registry_slot_reuse[OF limit, where A = "\<lparr>id_elem = 9, name = ''a''\<rparr>"
      and B = "\<lparr>id_elem = 9, name = ''b''\<rparr>" and C = "\<lparr>id_elem = 9, name = ''c''\<rparr>"
      and D = "\<lparr>id_elem = 9, name = ''a''\<rparr>", THEN conjunct1]
  have s3: "getByName [Some \<lparr>id_elem = 0, name = ''a''\<rparr>, Some \<lparr>id_elem = 1, name = ''b''\<rparr>,
                Some \<lparr>id_elem = 2, name = ''c''\<rparr>] ''b'' = Some \<lparr>id_elem = 1, name = ''b''\<rparr>"
    by (simp add: c_str_def)
  from run s3 show ?thesis
    by (simp add: Let_def c_str_def add_def remove_def update_def split: prod.splits)
qed

subsection \<open>The first empty slot\<close>

lemma first_null_None: "first_null es i = None \<longleftrightarrow> None \<notin> set es"
  by (induction es arbitrary: i) auto

lemma first_null_Some:
  "first_null es i = Some k \<Longrightarrow> i \<le> k \<and> k - i < length es \<and> es ! (k - i) = None \<and> (\<forall>j < k - i. es ! j \<noteq> None)"
proof (induction es arbitrary: i)
  case Nil then show ?case by simp
next
  case (Cons e es)
  show ?case
  proof (cases "e = None")
    case True with Cons.prems show ?thesis by simp
  next
    case False
    with Cons.prems have "first_null es (i + 1) = Some k" by simp
    from Cons.IH[OF this] have k: "i + 1 \<le> k" "k - (i + 1) < length es" "es ! (k - (i + 1)) = None"
      "\<forall>j < k - (i + 1). es ! j \<noteq> None" by auto
    have "k - i = Suc (k - (i + 1))" using k(1) by simp
    with k False show ?thesis by (auto simp: nth_Cons split: nat.splits)
  qed
qed


lemma u32_of_nat_valid:
  assumes "k < 2 ^ 32 - 1"
  shows "unat (of_nat k :: u32) = k" and "(of_nat k :: u32) \<noteq> - 1"
proof -
  show u: "unat (of_nat k :: u32) = k"
    using assms by (simp add: unat_of_nat)
  have "unat (- 1 :: u32) = 2 ^ 32 - 1"
    by (simp add: unsigned_minus_1_eq_mask mask_eq_exp_minus_1)
  with u assms show "(of_nat k :: u32) \<noteq> - 1" by (metis nat_neq_iff)
qed

lemma add_reuse:
  assumes "first_null es 0 = Some k"
  shows "add limit es e = (of_nat k, es[k := Some (e\<lparr>id_elem := of_nat k\<rparr>)])"
  using assms by (simp add: add_def)

lemma add_append:
  assumes "None \<notin> set es" "length es < limit"
  shows "add limit es e = (of_nat (length es), es @ [Some (e\<lparr>id_elem := of_nat (length es)\<rparr>)])"
proof -
  from assms(1) have "first_null es 0 = None" by (simp add: first_null_None)
  with assms(2) show ?thesis by (simp add: add_def Let_def)
qed

lemma add_full:
  assumes "None \<notin> set es" "limit \<le> length es"
  shows "add limit es e = (- 1, es)"
proof -
  from assms(1) have "first_null es 0 = None" by (simp add: first_null_None)
  with assms(2) show ?thesis by (simp add: add_def Let_def)
qed

text \<open>
  C8. On a slot table within the capacity limit (and a limit within the 32-bit id
  space), \<open>add\<close> succeeds whenever the table has an empty slot or holds fewer slots
  than the limit: the id returned is not the overflow sentinel, the element is stored
  under that id, an id inside the old table names a slot that was empty, and no other
  slot changes. When the table has no empty slot and has reached the limit, \<open>add\<close>
  returns the sentinel \<open>-1\<close> and the table as it was.
\<close>

theorem add_capacity_bound:
  assumes "length es \<le> limit" and "limit < 2 ^ 32"
  shows "(None \<in> set es \<or> length es < limit \<longrightarrow>
            (case add limit es e of (i, es') \<Rightarrow>
               i \<noteq> - 1 \<and> get es' i = Some (e\<lparr>id_elem := i\<rparr>)
               \<and> (unat i < length es \<longrightarrow> es ! unat i = None)
               \<and> (\<forall>j < length es. j \<noteq> unat i \<longrightarrow> es' ! j = es ! j)))
       \<and> (None \<notin> set es \<and> limit \<le> length es \<longrightarrow> add limit es e = (- 1, es))"
proof (intro conjI impI)
  assume ok: "None \<in> set es \<or> length es < limit"
  show "case add limit es e of (i, es') \<Rightarrow>
               i \<noteq> - 1 \<and> get es' i = Some (e\<lparr>id_elem := i\<rparr>)
               \<and> (unat i < length es \<longrightarrow> es ! unat i = None)
               \<and> (\<forall>j < length es. j \<noteq> unat i \<longrightarrow> es' ! j = es ! j)"
  proof (cases "first_null es 0")
    case (Some k)
    from first_null_Some[OF Some] have k: "k < length es" "es ! k = None" by auto
    with assms have "k < 2 ^ 32 - 1" by simp
    from u32_of_nat_valid[OF this] k show ?thesis
      by (simp add: add_reuse[OF Some] get_def)
  next
    case None
    then have nn: "None \<notin> set es" by (simp add: first_null_None)
    with ok have lt: "length es < limit" by simp
    with assms have "length es < 2 ^ 32 - 1" by simp
    from u32_of_nat_valid[OF this] show ?thesis
      by (simp add: add_append[OF nn lt] get_def nth_append)
  qed
next
  assume "None \<notin> set es \<and> limit \<le> length es"
  then show "add limit es e = (- 1, es)" by (simp add: add_full)
qed

theorem add_capacity_bound_witness:
  "add 2 [None, Some \<lparr>id_elem = 1, name = ''b''\<rparr>] \<lparr>id_elem = 7, name = ''a''\<rparr>
     = (0, [Some \<lparr>id_elem = 0, name = ''a''\<rparr>, Some \<lparr>id_elem = 1, name = ''b''\<rparr>])
   \<and> add 1 [Some \<lparr>id_elem = 0, name = ''b''\<rparr>] \<lparr>id_elem = 7, name = ''a''\<rparr>
     = (- 1, [Some \<lparr>id_elem = 0, name = ''b''\<rparr>])"
  using add_capacity_bound[of "[None, Some \<lparr>id_elem = 1, name = ''b''\<rparr>]" 2 "\<lparr>id_elem = 7, name = ''a''\<rparr>"]
        add_capacity_bound[of "[Some \<lparr>id_elem = 0, name = ''b''\<rparr>]" 1 "\<lparr>id_elem = 7, name = ''a''\<rparr>"]
  by (simp add: add_def)

end
